theory Spec2Isabelle
  imports Complex_Main "HOL-Library.Code_Target_Nat"
begin

section \<open>Single-precision arithmetic on the values the index functions produce\<close>

text \<open>
  The index functions of \<^verbatim>\<open>spherical_harmonics.h\<close> send unsigned integers through
  \<^verbatim>\<open>sqrtf\<close>, \<^verbatim>\<open>powf\<close> and \<^verbatim>\<open>float\<close> arithmetic and convert the result back to an
  integer, so their integer results depend on binary32 rounding. A finite binary32 number is
  modelled by the rational it denotes; every operation is the exact result rounded to a
  24-bit significand, ties to even (the default rounding mode). The exponent range is not
  bounded: the non-zero values that arise from 32-bit integers have a magnitude between
  \<open>2\<^sup>-\<^sup>4\<close> and \<open>2\<^sup>3\<^sup>3\<close>, far from overflow and from the subnormal numbers.
\<close>

fun ilog2 :: "nat \<Rightarrow> nat" where
  "ilog2 n = (if n < 2 then 0 else Suc (ilog2 (n div 2)))"

declare ilog2.simps [simp del]

definition pow2 :: "int \<Rightarrow> rat" where
  "pow2 e = (if 0 \<le> e then 2 ^ nat e else 1 / 2 ^ nat (- e))"

text \<open>For \<open>x > 0\<close>, \<open>exponent x\<close> is the \<open>e\<close> with \<open>2\<^sup>e \<le> x < 2\<^sup>e\<^sup>+\<^sup>1\<close>.\<close>

definition exponent :: "rat \<Rightarrow> int" where
  "exponent x =
     (if 1 \<le> x then int (ilog2 (nat \<lfloor>x\<rfloor>))
      else - int (Suc (ilog2 (nat (\<lceil>1 / x\<rceil> - 1)))))"

definition round_nearest_even :: "rat \<Rightarrow> int" where
  "round_nearest_even q =
     (let f = \<lfloor>q\<rfloor>; r = q - of_int f
      in if r < 1 / 2 then f else if 1 / 2 < r then f + 1
         else if even f then f else f + 1)"

definition round_f32 :: "rat \<Rightarrow> rat" where
  "round_f32 x =
     (if x = 0 then 0
      else let u = pow2 (exponent \<bar>x\<bar> - 23)
           in of_int (round_nearest_even (x / u)) * u)"

text \<open>Conversions \<^verbatim>\<open>unsigned int\<close> and \<^verbatim>\<open>int\<close> to \<^verbatim>\<open>float\<close>.\<close>

definition float_of_uint :: "nat \<Rightarrow> rat" where
  "float_of_uint n = round_f32 (of_nat n)"

definition float_of_int :: "int \<Rightarrow> rat" where
  "float_of_int i = round_f32 (of_int i)"

text \<open>
  Conversion \<^verbatim>\<open>float\<close> to \<^verbatim>\<open>int\<close> truncates towards zero; the values converted by
  \<^verbatim>\<open>coefficient_lm\<close> and by the launch geometry are far inside the range of the target
  type. Conversion to \<^verbatim>\<open>unsigned int\<close> is undefined for a value that truncates outside
  \<open>[0, 2\<^sup>3\<^sup>2)\<close>: that is the result \<open>None\<close>.
\<close>

definition trunc :: "rat \<Rightarrow> int" where
  "trunc x = (if 0 \<le> x then \<lfloor>x\<rfloor> else \<lceil>x\<rceil>)"

definition uint_of_float :: "rat \<Rightarrow> nat option" where
  "uint_of_float x = (if - 1 < x \<and> x < 2 ^ 32 then Some (nat (trunc x)) else None)"

definition fsub :: "rat \<Rightarrow> rat \<Rightarrow> rat" where
  "fsub a b = round_f32 (a - b)"

definition fdiv :: "rat \<Rightarrow> rat \<Rightarrow> rat" where
  "fdiv a b = round_f32 (a / b)"

definition floorf :: "rat \<Rightarrow> rat" where
  "floorf x = of_int \<lfloor>x\<rfloor>"

definition ceilf :: "rat \<Rightarrow> rat" where
  "ceilf x = of_int \<lceil>x\<rceil>"

text \<open>
  \<^verbatim>\<open>powf(x, 2)\<close> is taken to return the correctly rounded square, which is the square
  itself whenever that is a binary32 number.
\<close>

definition powf_2 :: "rat \<Rightarrow> rat" where
  "powf_2 x = round_f32 (x * x)"

fun isqrt :: "nat \<Rightarrow> nat" where
  "isqrt n =
     (if n = 0 then 0
      else let r = 2 * isqrt (n div 4)
           in if (r + 1) * (r + 1) \<le> n then r + 1 else r)"

declare isqrt.simps [simp del]

text \<open>
  \<^verbatim>\<open>sqrtf\<close> is correctly rounded (IEEE 754). For \<open>x > 0\<close> with \<open>4\<^sup>e \<le> x < 4\<^sup>e\<^sup>+\<^sup>1\<close> the root
  lies in \<open>[2\<^sup>e, 2\<^sup>e\<^sup>+\<^sup>1)\<close>, so the result is \<open>m * 2\<^sup>e\<^sup>-\<^sup>2\<^sup>3\<close> for the integer \<open>m\<close> nearest to
  \<open>sqrt (x * 4\<^sup>2\<^sup>3\<^sup>-\<^sup>e)\<close>; the root of a binary32 number is never half-way between two
  binary32 numbers. The argument is never negative in this program.
\<close>

definition sqrtf :: "rat \<Rightarrow> rat" where
  "sqrtf x =
     (if x \<le> 0 then 0
      else let e = exponent x div 2;
               n = x * pow2 (2 * (23 - e));
               s = int (isqrt (nat \<lfloor>n\<rfloor>));
               m = (if of_int (s * s + s) + 1 / 4 < n then s + 1 else s)
           in of_int m * pow2 (e - 23))"

section \<open>Index mapping\<close>

text \<open>\<^verbatim>\<open>unsigned int\<close> is a natural number below \<open>2\<^sup>3\<^sup>2\<close>; its arithmetic wraps.\<close>

definition uint_of_int :: "int \<Rightarrow> nat" where
  "uint_of_int i = nat (i mod 2 ^ 32)"

definition maximum_degree :: "nat \<Rightarrow> nat option" where
  "maximum_degree coefficient_count =
     uint_of_float (fsub (sqrtf (float_of_uint coefficient_count)) (float_of_int 1))"

definition coefficient_count :: "nat \<Rightarrow> nat" where
  "coefficient_count max_l = ((max_l + 1) * (max_l + 1)) mod 2 ^ 32"

definition coefficient_index :: "nat \<Rightarrow> int \<Rightarrow> nat" where
  "coefficient_index l m = uint_of_int (int l * (int l + 1) + m)"

definition coefficient_lm :: "nat \<Rightarrow> int \<times> int" where
  "coefficient_lm index =
     (let lm_x = trunc (floorf (sqrtf (float_of_uint index)));
          lm_y = trunc (fsub (fsub (float_of_uint index) (powf_2 (float_of_int lm_x)))
                             (float_of_int lm_x))
      in (lm_x, lm_y))"

section \<open>Basis evaluation\<close>

text \<open>
  The template parameter \<^verbatim>\<open>precision\<close> is read as the real numbers: \<^verbatim>\<open>sqrt\<close>, \<^verbatim>\<open>cos\<close>,
  \<^verbatim>\<open>sin\<close> and \<^verbatim>\<open>M_PI\<close> are the real functions and \<open>\<pi>\<close>, and a degree is a natural
  number, so that \<^verbatim>\<open>l - abs(m)\<close> and \<^verbatim>\<open>l + abs(m)\<close> are differences and sums of natural
  numbers. The headers \<^verbatim>\<open>legendre.h\<close> and \<^verbatim>\<open>clebsch_gordan.h\<close> are not part of the
  sources at hand; the three functions they provide are parameters of the model.
\<close>

record externals =
  factorial :: "nat \<Rightarrow> real"
  associated_legendre :: "nat \<Rightarrow> int \<Rightarrow> real \<Rightarrow> real"
  clebsch_gordan :: "int \<Rightarrow> int \<Rightarrow> int \<Rightarrow> int \<Rightarrow> int \<Rightarrow> int \<Rightarrow> real"

text \<open>
  An instance for evaluating the model at concrete inputs: the factorial of the library,
  and the constant \<open>1\<close> for the other two.
\<close>

definition reference_externals :: externals where
  "reference_externals =
     \<lparr>factorial = (\<lambda>n. real (fact n)),
      associated_legendre = (\<lambda>l m x. 1),
      clebsch_gordan = (\<lambda>l1 l2 l3 m1 m2 m3. 1)\<rparr>"

definition evaluate :: "externals \<Rightarrow> nat \<Rightarrow> int \<Rightarrow> real \<Rightarrow> real \<Rightarrow> real" where
  "evaluate ext l m theta phi =
     (let kml = sqrt ((2 * real l + 1) * factorial ext (l - nat \<bar>m\<bar>) /
                      (4 * pi * factorial ext (l + nat \<bar>m\<bar>)))
      in if 0 < m then
           sqrt 2 * kml * cos (of_int m * theta) * associated_legendre ext l m (cos phi)
         else if m < 0 then
           sqrt 2 * kml * sin (of_int (- m) * theta) * associated_legendre ext l (- m) (cos phi)
         else kml * associated_legendre ext l 0 (cos phi))"

text \<open>The overload on a flat index decodes it with \<^verbatim>\<open>coefficient_lm\<close>.\<close>

definition evaluate_index :: "externals \<Rightarrow> nat \<Rightarrow> real \<Rightarrow> real \<Rightarrow> real" where
  "evaluate_index ext index theta phi =
     (let lm = coefficient_lm index
      in evaluate ext (uint_of_int (fst lm)) (snd lm) theta phi)"

section \<open>Coefficient-vector operations\<close>







section \<open>Kernels\<close>

text \<open>
  A kernel is modelled by what one thread does to the buffers it is given, as a function of
  the thread's global index \<^verbatim>\<open>blockIdx * blockDim + threadIdx\<close> in each dimension. A
  launch runs the threads one after the other. A global index is a natural number (a
  launch has fewer than \<open>2\<^sup>3\<^sup>2\<close> threads in a dimension). The offsets that a kernel
  computes from it are \<^verbatim>\<open>unsigned int\<close>: sums and products are taken modulo \<open>2\<^sup>3\<^sup>2\<close>. A
  pointer to a buffer that is read is the list of values that starts at it (\<open>drop\<close> for
  pointer arithmetic); a pointer into a buffer that is written is an offset into that
  buffer, and adding an \<^verbatim>\<open>unsigned int\<close> to a pointer does not wrap. \<^verbatim>\<open>atomicAdd\<close> is one
  step. A kernel written for a two-dimensional grid does not read the third index. The
  record \<open>float3\<close> stands for the template parameters \<^verbatim>\<open>vector_type\<close> and
  \<^verbatim>\<open>point_type\<close>, whose components \<^verbatim>\<open>x\<close>, \<^verbatim>\<open>y\<close>, \<^verbatim>\<open>z\<close> hold a value, the azimuth
  \<open>theta\<close> and the polar angle \<open>phi\<close>.
\<close>

type_synonym dim3 = "nat \<times> nat \<times> nat"

record float3 =
  f_x :: real
  f_y :: real
  f_z :: real

definition block_size_2d :: dim3 where
  "block_size_2d = (16, 16, 1)"

definition block_size_3d :: dim3 where
  "block_size_3d = (8, 8, 8)"

definition threads :: "dim3 \<Rightarrow> dim3 \<Rightarrow> dim3 list" where
  "threads grid_size block_size =
     (case (grid_size, block_size) of
        ((gx, gy, gz), (bx, by, bz)) \<Rightarrow>
          List.product [0..<gx * bx] (List.product [0..<gy * by] [0..<gz * bz]))"

definition launch :: "(dim3 \<Rightarrow> 's \<Rightarrow> 's) \<Rightarrow> dim3 list \<Rightarrow> 's \<Rightarrow> 's" where
  "launch thread schedule s = fold thread schedule s"

text \<open>
  The launch contract in the comment above each kernel (\<^verbatim>\<open>Call on a ... grid\<close>): every
  index of the stated space is run, and no thread is run twice. A two-dimensional grid has
  \<open>z = 0\<close> throughout.
\<close>

definition covers_2d :: "nat \<Rightarrow> nat \<Rightarrow> dim3 list \<Rightarrow> bool" where
  "covers_2d nx ny schedule \<longleftrightarrow>
     distinct schedule \<and> (\<forall>w \<in> set schedule. snd (snd w) = 0) \<and>
     (\<forall>x < nx. \<forall>y < ny. (x, y, 0) \<in> set schedule)"

definition covers_3d :: "nat \<Rightarrow> nat \<Rightarrow> nat \<Rightarrow> dim3 list \<Rightarrow> bool" where
  "covers_3d nx ny nz schedule \<longleftrightarrow>
     distinct schedule \<and> (\<forall>x < nx. \<forall>y < ny. \<forall>z < nz. (x, y, z) \<in> set schedule)"

definition atomicAdd :: "real list \<Rightarrow> nat \<Rightarrow> real \<Rightarrow> real list" where
  "atomicAdd mem address val = mem[address := mem ! address + val]"

text \<open>
  The grid of a nested launch: \<^verbatim>\<open>ceil(float(n) / block_size.x)\<close>, in single precision,
  converted to \<^verbatim>\<open>unsigned int\<close>.
\<close>

definition grid_dim :: "nat \<Rightarrow> nat \<Rightarrow> nat" where
  "grid_dim n block = nat (trunc (ceilf (fdiv (float_of_uint n) (float_of_uint block))))"

definition calculate_matrix ::
  "externals \<Rightarrow> nat \<Rightarrow> nat \<Rightarrow> float3 list \<Rightarrow> nat \<Rightarrow> dim3 \<Rightarrow> real list \<Rightarrow> real list" where
  "calculate_matrix ext vector_count coefficient_count' vectors output_matrix =
     (\<lambda>(vector_index, coefficient_index', _) mem.
        if vector_count \<le> vector_index \<or> coefficient_count' \<le> coefficient_index' then mem
        else atomicAdd mem
               (output_matrix + (vector_index + vector_count * coefficient_index') mod 2 ^ 32)
               (evaluate_index ext coefficient_index'
                  (f_y (vectors ! vector_index)) (f_z (vectors ! vector_index))))"

definition calculate_matrices ::
  "externals \<Rightarrow> dim3 \<Rightarrow> nat \<Rightarrow> nat \<Rightarrow> float3 list \<Rightarrow> nat \<Rightarrow> dim3 \<Rightarrow> real list \<Rightarrow> real list"
  where
  "calculate_matrices ext dimensions vector_count coefficient_count' vectors output_matrices =
     (\<lambda>(x, y, z) mem.
        case dimensions of (dx, dy, dz) \<Rightarrow>
          if dx \<le> x \<or> dy \<le> y \<or> dz \<le> z then mem
          else
            let vectors_offset = (vector_count * (z + dz * (y + dy * x))) mod 2 ^ 32;
                matrix_offset = (vectors_offset * coefficient_count') mod 2 ^ 32;
                block_size = block_size_2d;
                grid_size = (grid_dim vector_count (fst block_size),
                             grid_dim coefficient_count' (fst (snd block_size)), 1)
            in launch (calculate_matrix ext vector_count coefficient_count'
                         (drop vectors_offset vectors) (output_matrices + matrix_offset))
                 (threads grid_size block_size) mem)"

text \<open>
  The six triangle-index entries of one grid cell, in the order \<^verbatim>\<open>sample\<close> and
  \<^verbatim>\<open>sample_sum\<close> store them at \<^verbatim>\<open>index_offset\<close>, \<^verbatim>\<open>index_offset + 1\<close>, ...,
  \<^verbatim>\<open>index_offset + 5\<close>. The entries and the six positions are \<^verbatim>\<open>unsigned int\<close>.
\<close>

definition cell_indices :: "nat \<Rightarrow> nat \<times> nat \<Rightarrow> nat \<Rightarrow> nat \<Rightarrow> nat list" where
  "cell_indices base_index tessellations longitude latitude =
     (case tessellations of (tx, ty) \<Rightarrow>
        [(base_index + longitude * ty + latitude) mod 2 ^ 32,
         (base_index + longitude * ty + (latitude + 1) mod ty) mod 2 ^ 32,
         (base_index + (longitude + 1) mod tx * ty + (latitude + 1) mod ty) mod 2 ^ 32,
         (base_index + longitude * ty + latitude) mod 2 ^ 32,
         (base_index + (longitude + 1) mod tx * ty + (latitude + 1) mod ty) mod 2 ^ 32,
         (base_index + (longitude + 1) mod tx * ty + latitude) mod 2 ^ 32])"

definition store_indices :: "nat list \<Rightarrow> nat \<Rightarrow> nat \<Rightarrow> nat list \<Rightarrow> nat list" where
  "store_indices indices output_indices index_offset entries =
     indices
       [output_indices + index_offset := entries ! 0,
        output_indices + (index_offset + 1) mod 2 ^ 32 := entries ! 1,
        output_indices + (index_offset + 2) mod 2 ^ 32 := entries ! 2,
        output_indices + (index_offset + 3) mod 2 ^ 32 := entries ! 3,
        output_indices + (index_offset + 4) mod 2 ^ 32 := entries ! 4,
        output_indices + (index_offset + 5) mod 2 ^ 32 := entries ! 5]"

definition point_offset :: "nat \<times> nat \<Rightarrow> nat \<Rightarrow> nat \<Rightarrow> nat" where
  "point_offset tessellations longitude latitude =
     (latitude + longitude * snd tessellations) mod 2 ^ 32"

text \<open>
  The angles of a grid vertex: \<^verbatim>\<open>2 * M_PI * longitude / tessellations.x\<close> and
  \<^verbatim>\<open>M_PI * latitude / (tessellations.y - 1)\<close>. The subtraction is on \<^verbatim>\<open>unsigned int\<close>;
  a thread in range has \<open>tessellations.y \<ge> 1\<close>. Division by zero, for
  \<open>tessellations.y = 1\<close>, is left to the caller by the source and is \<open>0\<close> here.
\<close>

definition grid_theta :: "nat \<times> nat \<Rightarrow> nat \<Rightarrow> real" where
  "grid_theta tessellations longitude = 2 * pi * real longitude / real (fst tessellations)"

definition grid_phi :: "nat \<times> nat \<Rightarrow> nat \<Rightarrow> real" where
  "grid_phi tessellations latitude = pi * real latitude / real (snd tessellations - 1)"

definition sample ::
  "externals \<Rightarrow> nat \<Rightarrow> int \<Rightarrow> nat \<times> nat \<Rightarrow> nat \<Rightarrow> nat \<Rightarrow> dim3 \<Rightarrow>
     float3 list \<times> nat list \<Rightarrow> float3 list \<times> nat list" where
  "sample ext l m tessellations output_points output_indices =
     (\<lambda>(longitude, latitude, _) (points, indices).
        if fst tessellations \<le> longitude \<or> snd tessellations \<le> latitude
        then (points, indices)
        else
          let point_offset' = point_offset tessellations longitude latitude;
              index_offset = (6 * point_offset') mod 2 ^ 32;
              point = points ! (output_points + point_offset');
              point = point\<lparr>f_y := grid_theta tessellations longitude\<rparr>;
              point = point\<lparr>f_z := grid_phi tessellations latitude\<rparr>;
              point = point\<lparr>f_x := evaluate ext l m (f_y point) (f_z point)\<rparr>
          in (points[output_points + point_offset' := point],
              store_indices indices output_indices index_offset
                (cell_indices 0 tessellations longitude latitude)))"

definition sample_sum ::
  "externals \<Rightarrow> nat \<Rightarrow> nat \<times> nat \<Rightarrow> real list \<Rightarrow> nat \<Rightarrow> nat \<Rightarrow> nat \<Rightarrow> dim3 \<Rightarrow>
     float3 list \<times> nat list \<Rightarrow> float3 list \<times> nat list" where
  "sample_sum ext coefficient_count' tessellations coefficients output_points output_indices
       base_index =
     (\<lambda>(longitude, latitude, coefficient_index') (points, indices).
        if fst tessellations \<le> longitude \<or> snd tessellations \<le> latitude \<or>
           coefficient_count' \<le> coefficient_index'
        then (points, indices)
        else
          let point_offset' = point_offset tessellations longitude latitude;
              index_offset = (6 * point_offset') mod 2 ^ 32;
              point = points ! (output_points + point_offset');
              point = (if coefficient_index' = 0 then point\<lparr>f_x := 0\<rparr> else point);
              point = point\<lparr>f_y := grid_theta tessellations longitude\<rparr>;
              point = point\<lparr>f_z := grid_phi tessellations latitude\<rparr>;
              point = point\<lparr>f_x := f_x point +
                        evaluate_index ext coefficient_index' (f_y point) (f_z point) *
                        coefficients ! coefficient_index'\<rparr>
          in (points[output_points + point_offset' := point],
              if coefficient_index' = 0
              then store_indices indices output_indices index_offset
                     (cell_indices base_index tessellations longitude latitude)
              else indices))"

definition sample_sums ::
  "externals \<Rightarrow> dim3 \<Rightarrow> nat \<Rightarrow> nat \<times> nat \<Rightarrow> real list \<Rightarrow> nat \<Rightarrow> nat \<Rightarrow> nat \<Rightarrow> dim3 \<Rightarrow>
     float3 list \<times> nat list \<Rightarrow> float3 list \<times> nat list" where
  "sample_sums ext dimensions coefficient_count' tessellations coefficients output_points
       output_indices base_index =
     (\<lambda>(x, y, z) s.
        case dimensions of (dx, dy, dz) \<Rightarrow>
          if dx \<le> x \<or> dy \<le> y \<or> dz \<le> z then s
          else
            let volume_index = (z + dz * (y + dy * x)) mod 2 ^ 32;
                coefficients_offset = (volume_index * coefficient_count') mod 2 ^ 32;
                points_offset = (volume_index * fst tessellations * snd tessellations) mod 2 ^ 32;
                indices_offset = (6 * points_offset) mod 2 ^ 32;
                block_size = block_size_3d;
                grid_size = (grid_dim (fst tessellations) (fst block_size),
                             grid_dim (snd tessellations) (fst (snd block_size)),
                             grid_dim coefficient_count' (snd (snd block_size)))
            in launch (sample_sum ext coefficient_count' tessellations
                         (drop coefficients_offset coefficients)
                         (output_points + points_offset) (output_indices + indices_offset)
                         ((base_index + points_offset) mod 2 ^ 32))
                 (threads grid_size block_size) s)"

definition product ::
  "externals \<Rightarrow> nat \<Rightarrow> real list \<Rightarrow> real list \<Rightarrow> nat \<Rightarrow> dim3 \<Rightarrow> real list \<Rightarrow> real list" where
  "product ext coefficient_count' lhs_coefficients rhs_coefficients out_coefficients =
     (\<lambda>(lhs_index, rhs_index, out_index) mem.
        if coefficient_count' \<le> lhs_index \<or> coefficient_count' \<le> rhs_index \<or>
           coefficient_count' \<le> out_index
        then mem
        else
          let lhs_lm = coefficient_lm lhs_index;
              rhs_lm = coefficient_lm rhs_index;
              out_lm = coefficient_lm out_index;
              cg1 = clebsch_gordan ext (fst lhs_lm) (fst rhs_lm) (fst out_lm) 0 0 0;
              cg2 = clebsch_gordan ext (fst lhs_lm) (fst rhs_lm) (fst out_lm)
                      (snd lhs_lm) (snd rhs_lm) (snd out_lm);
              coupling = sqrt (of_int ((2 * fst lhs_lm + 1) * (2 * fst rhs_lm + 1)) /
                               (4 * pi * of_int (2 * fst out_lm + 1))) * cg1 * cg2
          in atomicAdd mem (out_coefficients + out_index)
               (coupling * lhs_coefficients ! lhs_index * rhs_coefficients ! rhs_index))"

definition product_volume ::
  "externals \<Rightarrow> dim3 \<Rightarrow> nat \<Rightarrow> real list \<Rightarrow> real list \<Rightarrow> nat \<Rightarrow> dim3 \<Rightarrow> real list \<Rightarrow> real list"
  where
  "product_volume ext dimensions coefficient_count' lhs_coefficients rhs_coefficients
       out_coefficients =
     (\<lambda>(x, y, z) mem.
        case dimensions of (dx, dy, dz) \<Rightarrow>
          if dx \<le> x \<or> dy \<le> y \<or> dz \<le> z then mem
          else
            let coefficients_offset = (coefficient_count' * (z + dz * (y + dy * x))) mod 2 ^ 32;
                block_size = block_size_3d;
                grid_size = (grid_dim coefficient_count' (fst block_size),
                             grid_dim coefficient_count' (fst (snd block_size)),
                             grid_dim coefficient_count' (snd (snd block_size)))
            in launch (product ext coefficient_count'
                         (drop coefficients_offset lhs_coefficients)
                         (drop coefficients_offset rhs_coefficients)
                         (out_coefficients + coefficients_offset))
                 (threads grid_size block_size) mem)"

section \<open>Properties of the single-precision model\<close>

lemma ilog2_bounds: "0 < n \<Longrightarrow> 2 ^ ilog2 n \<le> n \<and> n < 2 ^ Suc (ilog2 n)"
proof (induction n rule: ilog2.induct)
  case (1 n)
  show ?case
  proof (cases "n < 2")
    case True
    with "1.prems" have "n = 1" by simp
    then show ?thesis by (simp add: ilog2.simps)
  next
    case False
    then have pos: "0 < n div 2" by simp
    from "1.IH" [OF False pos]
    have ih: "2 ^ ilog2 (n div 2) \<le> n div 2" "n div 2 < 2 ^ Suc (ilog2 (n div 2))"
      by simp_all
    have eq: "ilog2 n = Suc (ilog2 (n div 2))"
      using False by (subst ilog2.simps) simp
    from ih show ?thesis unfolding eq by auto
  qed
qed

lemma isqrt_bounds: "isqrt n * isqrt n \<le> n \<and> n < (isqrt n + 1) * (isqrt n + 1)"
proof (induction n rule: isqrt.induct)
  case (1 n)
  show ?case
  proof (cases "n = 0")
    case True
    then show ?thesis by (simp add: isqrt.simps)
  next
    case False
    define q where "q = isqrt (n div 4)"
    from "1.IH" [OF False] have ih: "q * q \<le> n div 4" "n div 4 < (q + 1) * (q + 1)"
      by (simp_all add: q_def)
    have lo: "(2 * q) * (2 * q) \<le> n"
      using ih(1) by (simp add: algebra_simps) 
    have "n div 4 + 1 \<le> (q + 1) * (q + 1)" using ih(2) by simp
    then have "4 * (n div 4 + 1) \<le> 4 * ((q + 1) * (q + 1))" by simp
    moreover have "n < 4 * (n div 4 + 1)" by simp
    ultimately have hi: "n < (2 * q + 2) * (2 * q + 2)"
      by (simp add: algebra_simps)
    have eq: "isqrt n = (if (2 * q + 1) * (2 * q + 1) \<le> n then 2 * q + 1 else 2 * q)"
      using False by (subst isqrt.simps) (simp add: q_def Let_def)
    show ?thesis
      using lo hi unfolding eq by (auto simp: not_le)
  qed
qed


lemma isqrt_unique: "k * k \<le> n \<Longrightarrow> n < (k + 1) * (k + 1) \<Longrightarrow> isqrt n = k"
proof -
  assume a: "k * k \<le> n" "n < (k + 1) * (k + 1)"
  let ?s = "isqrt n"
  from isqrt_bounds [of n] have b: "?s * ?s \<le> n" "n < (?s + 1) * (?s + 1)" by simp_all
  have "\<not> ?s < k"
  proof
    assume "?s < k"
    then have "?s + 1 \<le> k" by arith
    from this this have "(?s + 1) * (?s + 1) \<le> k * k" by (rule mult_le_mono)
    with a b show False by arith
  qed
  moreover have "\<not> k < ?s"
  proof
    assume "k < ?s"
    then have "k + 1 \<le> ?s" by arith
    from this this have "(k + 1) * (k + 1) \<le> ?s * ?s" by (rule mult_le_mono)
    with a b show False by arith
  qed
  ultimately show ?thesis by arith
qed

lemma pow2_powi: "pow2 e = 2 powi e"
  by (simp add: pow2_def power_int_def field_simps)

lemma pow2_pos [simp]: "0 < pow2 e"
  by (simp add: pow2_def)

lemma pow2_neq0 [simp]: "pow2 e \<noteq> 0"
  by (simp add: pow2_def)

lemma pow2_abs [simp]: "\<bar>pow2 e\<bar> = pow2 e"
  by (simp add: pow2_def)

lemma pow2_add: "pow2 (a + b) = pow2 a * pow2 b"
  by (simp add: pow2_powi power_int_add)

lemma pow2_nat: "pow2 (int n) = 2 ^ n"
  by (simp add: pow2_def)

lemma pow2_mono: "a \<le> b \<Longrightarrow> pow2 a \<le> pow2 b"
  by (simp add: pow2_powi power_int_increasing)

lemma pow2_strict_mono: "a < b \<Longrightarrow> pow2 a < pow2 b"
  by (simp add: pow2_powi power_int_strict_increasing)

lemma pow2_less_cancel: "pow2 a < pow2 b \<Longrightarrow> a < b"
  using pow2_mono [of b a] by (cases "a < b") auto

lemma pow2_minus: "pow2 (- a) = 1 / pow2 a"
  by (simp add: pow2_powi power_int_minus field_simps)

lemma of_nat_pow2_le: "2 ^ k \<le> n \<Longrightarrow> (2::rat) ^ k \<le> of_nat n"
proof -
  assume "2 ^ k \<le> n"
  then have "(of_nat (2 ^ k) :: rat) \<le> of_nat n" by (simp only: of_nat_le_iff)
  then show ?thesis by simp
qed

lemma of_nat_less_pow2: "n < 2 ^ k \<Longrightarrow> of_nat n < (2::rat) ^ k"
proof -
  assume "n < 2 ^ k"
  then have "(of_nat n :: rat) < of_nat (2 ^ k)" by (simp only: of_nat_less_iff)
  then show ?thesis by simp
qed

lemma exponent_bounds:
  assumes "0 < x"
  shows "pow2 (exponent x) \<le> x \<and> x < pow2 (exponent x + 1)"
proof (cases "1 \<le> x")
  case True
  define n where "n = nat \<lfloor>x\<rfloor>"
  from True have n0: "0 < n" by (simp add: n_def)
  from True have n1: "of_nat n \<le> x" by (simp add: n_def)
  from True have n2: "x < of_nat (n + 1)" by (simp add: n_def) linarith
  have e: "exponent x = int (ilog2 n)" using True by (simp add: exponent_def n_def)
  from ilog2_bounds [OF n0] have b: "2 ^ ilog2 n \<le> n" "n + 1 \<le> 2 ^ Suc (ilog2 n)" by simp_all
  have "(2::rat) ^ ilog2 n \<le> of_nat n" using b(1) by (rule of_nat_pow2_le)
  then have lo: "(2::rat) ^ ilog2 n \<le> x" using n1 by (rule order_trans)
  have "(of_nat (n + 1) :: rat) \<le> of_nat (2 ^ Suc (ilog2 n))"
    using b(2) by (simp only: of_nat_le_iff)
  then have "(of_nat (n + 1) :: rat) \<le> 2 ^ Suc (ilog2 n)" by simp
  with n2 have hi: "x < 2 ^ Suc (ilog2 n)" by (rule less_le_trans)
  have p1: "pow2 (int (ilog2 n)) = 2 ^ ilog2 n" by (rule pow2_nat)
  have p2: "pow2 (int (ilog2 n) + 1) = 2 ^ Suc (ilog2 n)"
    using pow2_nat [of "Suc (ilog2 n)"] by (simp add: add.commute)
  show ?thesis unfolding e p1 p2 using lo hi by (rule conjI)
next
  case False
  with assms have x: "0 < x" "x < 1" by simp_all
  define k where "k = nat (\<lceil>1 / x\<rceil> - 1)"
  define j where "j = ilog2 k"
  have inv: "1 < 1 / x" using x by simp
  then have c2: "2 \<le> \<lceil>1 / x\<rceil>" by linarith
  then have k0: "0 < k" by (simp add: k_def)
  have k1: "of_nat k < 1 / x" using c2 by (simp add: k_def) linarith
  have k2: "1 / x \<le> of_nat (k + 1)" using c2 by (simp add: k_def) linarith
  have e: "exponent x = - int (Suc j)" using False by (simp add: exponent_def k_def j_def)
  from ilog2_bounds [OF k0] have b: "2 ^ j \<le> k" "k + 1 \<le> 2 ^ Suc j" by (simp_all add: j_def)
  have "(2::rat) ^ j \<le> of_nat k" using b(1) by (rule of_nat_pow2_le)
  then have "(2::rat) ^ j < 1 / x" using k1 by (rule le_less_trans)
  then have hi: "x < 1 / 2 ^ j" using x by (simp add: field_simps)
  have "(of_nat (k + 1) :: rat) \<le> of_nat (2 ^ Suc j)"
    using b(2) by (simp only: of_nat_le_iff)
  then have "(of_nat (k + 1) :: rat) \<le> 2 ^ Suc j" by simp
  with k2 have "1 / x \<le> 2 ^ Suc j" by (rule order_trans)
  then have lo: "1 / 2 ^ Suc j \<le> x" using x by (simp add: field_simps)
  have p1: "pow2 (- int (Suc j)) = 1 / 2 ^ Suc j" by (simp add: pow2_def nat_add_distrib)
  have p2: "pow2 (- int (Suc j) + 1) = 1 / 2 ^ j" by (simp add: pow2_def)
  show ?thesis unfolding e p1 p2 using lo hi by (rule conjI)
qed

lemma exponent_less: "0 < x \<Longrightarrow> x < pow2 k \<Longrightarrow> exponent x < k"
  using exponent_bounds [of x] pow2_less_cancel [of "exponent x" k] by simp

lemma exponent_ge: "0 < x \<Longrightarrow> pow2 k \<le> x \<Longrightarrow> k \<le> exponent x"
  using exponent_bounds [of x] pow2_less_cancel [of k "exponent x + 1"] by simp

lemma round_nearest_even_of_int [simp]: "round_nearest_even (of_int k) = k"
  by (simp add: round_nearest_even_def)

lemma pow2_diff: "pow2 (a - b) = pow2 a / pow2 b"
  using pow2_add [of a "- b"] by (simp add: pow2_minus)

lemma pow2_0 [simp]: "pow2 0 = 1"
  by (simp add: pow2_def)

lemma pow2_numeral [simp]: "pow2 (numeral k) = 2 ^ numeral k"
  by (simp add: pow2_def)

lemma pow2_of_int: "0 \<le> d \<Longrightarrow> pow2 d = of_int (2 ^ nat d)"
  by (simp add: pow2_def)

lemma round_f32_unit:
  assumes "x \<noteq> 0" and "x / pow2 (exponent \<bar>x\<bar> - 23) = of_int k"
  shows "round_f32 x = x"
proof -
  let ?u = "pow2 (exponent \<bar>x\<bar> - 23)"
  have "round_f32 x = of_int (round_nearest_even (x / ?u)) * ?u"
    using assms(1) by (simp add: round_f32_def Let_def)
  also have "\<dots> = (x / ?u) * ?u" unfolding assms(2) by simp
  also have "\<dots> = x" using pow2_pos [of "exponent \<bar>x\<bar> - 23"] by simp
  finally show ?thesis .
qed

lemma round_f32_exact:
  assumes x: "x = of_int M * pow2 E" and M: "\<bar>M\<bar> \<le> 2 ^ 24"
  shows "round_f32 x = x"
proof (cases "M = 0")
  case True
  then show ?thesis by (simp add: x round_f32_def)
next
  case False
  then have x0: "x \<noteq> 0" using pow2_pos [of E] by (simp add: x)
  have ax: "\<bar>x\<bar> = of_int \<bar>M\<bar> * pow2 E"
    using pow2_pos [of E] by (simp add: x abs_mult)
  define e where "e = exponent \<bar>x\<bar>"
  have pos: "0 < \<bar>x\<bar>" using x0 by simp
  from exponent_bounds [OF pos] have lo: "pow2 e \<le> \<bar>x\<bar>" by (simp add: e_def)
  have "(of_int \<bar>M\<bar> :: rat) \<le> of_int (2 ^ 24)" using M by (simp only: of_int_le_iff)
  then have Mr: "(of_int \<bar>M\<bar> :: rat) \<le> 2 ^ 24" by simp
  have "\<bar>x\<bar> \<le> 2 ^ 24 * pow2 E"
    unfolding ax using Mr pow2_pos [of E] by (simp add: mult_right_mono)
  also have "\<dots> = pow2 (24 + E)" by (simp add: pow2_add)
  finally have hi: "\<bar>x\<bar> \<le> pow2 (24 + E)" .
  have ele: "e \<le> 24 + E"
  proof (rule ccontr)
    assume "\<not> e \<le> 24 + E"
    then have "pow2 (24 + E) < pow2 e" by (simp add: pow2_strict_mono)
    with lo hi show False by simp
  qed
  have quot: "x / pow2 (e - 23) = of_int M * pow2 (E - e + 23)"
  proof -
    have "pow2 (E - e + 23) = pow2 E / pow2 (e - 23)"
      using pow2_diff [of E "e - 23"] by (simp add: algebra_simps)
    then show ?thesis by (simp add: x)
  qed
  show ?thesis
  proof (cases "e \<le> 23 + E")
    case True
    then have d: "0 \<le> E - e + 23" by simp
    have "x / pow2 (e - 23) = of_int (M * 2 ^ nat (E - e + 23))"
      unfolding quot pow2_of_int [OF d] by simp
    then show ?thesis unfolding e_def by (rule round_f32_unit [OF x0])
  next
    case False
    with ele have ee: "e = 24 + E" by simp
    have "pow2 (24 + E) \<le> of_int \<bar>M\<bar> * pow2 E" using lo by (simp add: ee ax)
    then have "2 ^ 24 * pow2 E \<le> of_int \<bar>M\<bar> * pow2 E" by (simp add: pow2_add)
    then have "(2 ^ 24 :: rat) \<le> of_int \<bar>M\<bar>" using pow2_pos [of E] by simp
    then have "(of_int (2 ^ 24) :: rat) \<le> of_int \<bar>M\<bar>" by simp
    then have "2 ^ 24 \<le> \<bar>M\<bar>" by (simp only: of_int_le_iff)
    with M have am: "\<bar>M\<bar> = 2 ^ 24" by simp
    then have "\<bar>M\<bar> = 16777216" by simp
    then have ev: "M = 2 * (M div 2)" by presburger
    have "pow2 (E - e + 23) = 1 / 2" by (simp add: ee pow2_def)
    then have "x / pow2 (e - 23) = of_int M / 2" unfolding quot by simp
    also have "\<dots> = of_int (M div 2)" by (subst ev) simp
    finally show ?thesis unfolding e_def by (rule round_f32_unit [OF x0])
  qed
qed

lemma round_f32_of_int: "\<bar>i\<bar> \<le> 2 ^ 24 \<Longrightarrow> round_f32 (of_int i) = of_int i"
  using round_f32_exact [of "of_int i" i 0] by simp

lemma round_f32_of_nat: "n \<le> 2 ^ 24 \<Longrightarrow> round_f32 (of_nat n) = of_nat n"
  using round_f32_of_int [of "int n"] by simp

lemma exponent_of_nat_nonneg: "0 < X \<Longrightarrow> 0 \<le> exponent (of_nat X)"
  by (simp add: exponent_def)

lemma sqrtf_of_nat:
  assumes X: "0 < X" and e: "e = exponent (of_nat X) div 2" and e23: "e \<le> 23"
    and D: "D = 2 ^ nat (23 - e)"
  shows "sqrtf (of_nat X) =
           of_nat (let s = isqrt (X * D * D) in if s * s + s < X * D * D then s + 1 else s)
             / of_nat D"
proof -
  have p1: "pow2 (2 * (23 - e)) = of_nat (D * D)"
  proof -
    have "pow2 (2 * (23 - e)) = pow2 (23 - e) * pow2 (23 - e)"
      using pow2_add [of "23 - e" "23 - e"] by (simp add: algebra_simps)
    also have "pow2 (23 - e) = of_nat D" using e23 by (simp add: pow2_def D)
    finally show ?thesis by simp
  qed
  have p2: "pow2 (e - 23) = 1 / of_nat D"
    using pow2_minus [of "23 - e"] e23 by (simp add: pow2_def D)
  have n: "of_nat X * pow2 (2 * (23 - e)) = (of_nat (X * D * D) :: rat)"
    unfolding p1 by (simp add: mult.assoc)
  have fl: "nat \<lfloor>(of_nat (X * D * D) :: rat)\<rfloor> = X * D * D" 
    by (simp only: floor_of_nat nat_int)
  define s where "s = isqrt (X * D * D)"
  have cmp: "(rat_of_int (int s * int s + int s) + 1 / 4 < of_nat (X * D * D))
               = (s * s + s < X * D * D)"
  proof
    assume "rat_of_int (int s * int s + int s) + 1 / 4 < of_nat (X * D * D)"
    then have "rat_of_int (int (s * s + s)) < rat_of_int (int (X * D * D))" by simp
    then have "int (s * s + s) < int (X * D * D)" by (simp only: of_int_less_iff)
    then show "s * s + s < X * D * D" by (simp only: of_nat_less_iff)
  next
    assume "s * s + s < X * D * D"
    then have "s * s + s + 1 \<le> X * D * D" by simp
    then have "rat_of_nat (s * s + s + 1) \<le> rat_of_nat (X * D * D)" by (simp only: of_nat_le_iff)
    then show "rat_of_int (int s * int s + int s) + 1 / 4 < of_nat (X * D * D)" by simp
  qed
  have xpos: "\<not> (rat_of_nat X \<le> 0)" using X by simp
  show ?thesis
    unfolding sqrtf_def Let_def e [symmetric] n fl s_def [symmetric] cmp p2
    using xpos by (simp add: s_def)
qed

lemma nat_square_less_cancel: "(a::nat) * a < b * b \<Longrightarrow> a < b"
  by (metis mult_le_mono not_le)

lemma nat_square_le_cancel: "(a::nat) * a \<le> b * b \<Longrightarrow> a \<le> b"
  by (metis mult_strict_mono' not_le zero_le)

lemma isqrt_ge: "k * k \<le> n \<Longrightarrow> k \<le> isqrt n"
proof -
  assume "k * k \<le> n"
  also have "n < (isqrt n + 1) * (isqrt n + 1)" using isqrt_bounds [of n] by simp
  finally have "k < isqrt n + 1" by (rule nat_square_less_cancel)
  then show ?thesis by simp
qed

lemma isqrt_less: "n < k * k \<Longrightarrow> isqrt n < k"
proof -
  assume "n < k * k"
  with isqrt_bounds [of n] have "isqrt n * isqrt n < k * k" by simp
  then show ?thesis by (rule nat_square_less_cancel)
qed

lemma sqrtf_near_square:
  assumes X: "0 < X" and e: "e = exponent (of_nat X) div 2" and e23: "e \<le> 23"
    and D: "D = 2 ^ nat (23 - e)" and k: "0 < k"
    and close: "\<bar>int X - int (k * k)\<bar> * int D < int k"
  shows "sqrtf (of_nat X) = of_nat k"
proof -
  define t where "t = k * D"
  define n where "n = X * D * D"
  have D0: "0 < D" by (simp add: D)
  have t0: "0 < t" using k D0 by (simp add: t_def)
  have "int n - int (t * t) = (int X - int (k * k)) * (int D * int D)"
    by (simp add: n_def t_def algebra_simps)
  then have "\<bar>int n - int (t * t)\<bar> = \<bar>int X - int (k * k)\<bar> * \<bar>int D * int D\<bar>"
    by (simp only: abs_mult)
  also have "\<dots> = (\<bar>int X - int (k * k)\<bar> * int D) * int D"
    by simp
  also have "\<dots> < int k * int D" using close D0 by simp
  finally have cl: "\<bar>int n - int (t * t)\<bar> < int t" by (simp add: t_def)
  have m: "(let s = isqrt n in if s * s + s < n then s + 1 else s) = t"
  proof (cases "t * t \<le> n")
    case True
    with cl have "n < t * t + t" by linarith
    then have "n < (t + 1) * (t + 1)" by simp
    with True have s: "isqrt n = t" by (rule isqrt_unique)
    show ?thesis unfolding s using \<open>n < t * t + t\<close> by simp
  next
    case False
    obtain u where u: "t = u + 1" using t0 by (cases t) auto
    from False cl have lo: "t * t < n + t" by linarith
    then have "u * u + u < n" by (simp add: u)
    then have "u * u \<le> n" by simp
    moreover have "n < (u + 1) * (u + 1)" using False by (simp add: u)
    ultimately have s: "isqrt n = u" by (rule isqrt_unique)
    show ?thesis unfolding s using \<open>u * u + u < n\<close> by (simp add: u)
  qed
  have "sqrtf (of_nat X) = of_nat t / of_nat D"
    using sqrtf_of_nat [OF X e e23 D] m by (simp add: n_def)
  then show ?thesis using D0 by (simp add: t_def)
qed

lemma floor_sqrtf_small:
  assumes X: "0 < X" and small: "X < 2 ^ 24"
  shows "\<lfloor>sqrtf (of_nat X)\<rfloor> = int (isqrt X)"
proof -
  define E where "E = exponent (rat_of_nat X)"
  define a where "a = nat (E div 2)"
  define D :: nat where "D = 2 ^ (23 - a)"
  define k where "k = isqrt X"
  define n where "n = X * D * D"
  define s where "s = isqrt n"
  have xpos: "0 < rat_of_nat X" using X by simp
  have E0: "0 \<le> E" unfolding E_def using X by (rule exponent_of_nat_nonneg)
  have "rat_of_nat X < pow2 24" using of_nat_less_pow2 [OF small] by simp
  with xpos have E24: "E < 24" unfolding E_def by (rule exponent_less)
  have a11: "a \<le> 11" using E0 E24 by (simp add: a_def)
  have ea: "E div 2 = int a" using E0 by (simp add: a_def)
  have e23: "E div 2 \<le> 23" using ea a11 by simp
  have Dd: "D = 2 ^ nat (23 - E div 2)" using a11 by (simp add: D_def ea nat_diff_distrib)
  have D0: "0 < D" by (simp add: D_def)
  have sq: "sqrtf (of_nat X) = of_nat (if s * s + s < n then s + 1 else s) / of_nat D"
    using sqrtf_of_nat [OF X refl, folded E_def, OF e23 Dd] by (simp add: s_def n_def Let_def)
  have kb: "k * k \<le> X" "X < (k + 1) * (k + 1)"
    using isqrt_bounds [of X] by (simp_all add: k_def)
  \<comment> \<open>the root lies below \<open>2 ^ (a + 1)\<close>, which is at most \<open>D\<close>\<close>
  have "rat_of_nat X < pow2 (E + 1)" using exponent_bounds [OF xpos] by (simp add: E_def)
  also have "pow2 (E + 1) \<le> pow2 (int (2 * (a + 1)))"
  proof (rule pow2_mono)
    have "E \<le> 2 * (E div 2) + 1" by presburger
    then show "E + 1 \<le> int (2 * (a + 1))" by (simp add: ea)
  qed
  also have "\<dots> = of_nat (2 ^ (2 * (a + 1)))" by (simp only: pow2_nat of_nat_power of_nat_numeral)
  finally have "X < 2 ^ (2 * (a + 1))" by (simp only: of_nat_less_iff)
  also have "\<dots> = 2 ^ (a + 1) * 2 ^ (a + 1)" by (simp only: mult_2 power_add)
  finally have "k * k < 2 ^ (a + 1) * 2 ^ (a + 1)" using kb(1) by simp
  then have "k < 2 ^ (a + 1)" by (rule nat_square_less_cancel)
  moreover have "(2::nat) ^ (a + 1) \<le> 2 ^ (23 - a)"
    by (rule power_increasing) (use a11 in simp_all)
  ultimately have kD: "k + 1 \<le> D" by (simp add: D_def)
  \<comment> \<open>bounds on the scaled root\<close>
  have "(k * D) * (k * D) \<le> n" using kb(1) by (simp add: n_def algebra_simps)
  then have lo: "k * D \<le> s" unfolding s_def by (rule isqrt_ge)
  have "X + 1 \<le> (k + 1) * (k + 1)" using kb(2) by simp
  then have "(X + 1) * (D * D) \<le> ((k + 1) * (k + 1)) * (D * D)" by (rule mult_le_mono1)
  then have nle: "n + D * D \<le> ((k + 1) * D) * ((k + 1) * D)"
    by (simp add: n_def algebra_simps)
  moreover have "0 < D * D" using D0 by simp
  ultimately have "n < ((k + 1) * D) * ((k + 1) * D)" by linarith
  then have hi: "s < (k + 1) * D" unfolding s_def by (rule isqrt_less)
  have up: "s + 1 < (k + 1) * D" if r: "s * s + s < n"
  proof (rule ccontr)
    assume "\<not> s + 1 < (k + 1) * D"
    with hi have eq: "(k + 1) * D = s + 1" by simp
    have "(k + 1) * D \<le> D * D" using kD by (rule mult_le_mono1)
    then have "s + 1 \<le> D * D" unfolding eq .
    moreover from nle have "n + D * D \<le> (s + 1) * (s + 1)" unfolding eq .
    ultimately have "n + (s + 1) \<le> (s + 1) * (s + 1)" by linarith
    then have "n \<le> s * s + s" by simp
    with r show False by simp
  qed
  define m where "m = (if s * s + s < n then s + 1 else s)"
  have mlo: "k * D \<le> m" using lo by (simp add: m_def)
  have mhi: "m < (k + 1) * D" using hi up by (simp add: m_def)
  have "m div D = k"
    by (rule div_nat_eqI) (use mlo mhi in \<open>simp_all add: mult.commute\<close>)
  then have "\<lfloor>rat_of_nat m / rat_of_nat D\<rfloor> = int k"
    by (simp add: floor_divide_of_nat_eq)
  then show ?thesis unfolding sq m_def [symmetric] k_def .
qed

lemma round_nearest_even_error: "\<bar>of_int (round_nearest_even q) - q\<bar> \<le> 1 / 2"
proof -
  have "of_int \<lfloor>q\<rfloor> \<le> q" "q < of_int \<lfloor>q\<rfloor> + 1" by linarith+
  then show ?thesis
    unfolding round_nearest_even_def Let_def by (auto simp: abs_if; linarith)
qed

lemma pow2_nonneg [simp]: "0 \<le> pow2 e"
  by (simp add: pow2_def)

lemma round_nearest_even_ge: "of_int z \<le> q \<Longrightarrow> z \<le> round_nearest_even q"
proof -
  assume "of_int z \<le> q"
  then have "z \<le> \<lfloor>q\<rfloor>" by (simp add: le_floor_iff)
  then show ?thesis by (auto simp: round_nearest_even_def Let_def)
qed

lemma round_f32_of_nat_near:
  assumes X0: "0 < X0"
  defines "E \<equiv> exponent (of_nat X0)"
  shows "\<exists>X. round_f32 (of_nat X0) = of_nat X \<and> pow2 E \<le> of_nat X
            \<and> 2 * \<bar>rat_of_nat X - of_nat X0\<bar> \<le> pow2 (E - 23)"
proof (cases "X0 \<le> 2 ^ 24")
  case True
  have "pow2 E \<le> of_nat X0" unfolding E_def using exponent_bounds [of "of_nat X0"] X0 by simp
  then show ?thesis using round_f32_of_nat [OF True] by auto
next
  case False
  let ?x = "rat_of_nat X0"
  have xpos: "0 < ?x" using X0 by simp
  have "pow2 24 \<le> ?x" using False of_nat_pow2_le [of 24 X0] by simp
  with xpos have E24: "24 \<le> E" unfolding E_def by (rule exponent_ge)
  define U :: nat where "U = 2 ^ nat (E - 23)"
  have u: "pow2 (E - 23) = of_nat U" using E24 by (simp add: pow2_def U_def)
  have U0: "0 < U" by (simp add: U_def)
  define r where "r = round_nearest_even (?x / of_nat U)"
  have lo: "pow2 E \<le> ?x" unfolding E_def using exponent_bounds [OF xpos] by simp
  have pE: "pow2 E = of_int (2 ^ 23) * of_nat U"
    using pow2_add [of 23 "E - 23"] by (simp add: u)
  have "of_int (2 ^ 23) \<le> ?x / of_nat U"
    using lo U0 unfolding pE by (simp add: pos_le_divide_eq)
  then have r23: "2 ^ 23 \<le> r" unfolding r_def by (rule round_nearest_even_ge)
  then have r0: "0 \<le> r" by simp
  define X where "X = nat r * U"
  have rx: "round_f32 ?x = of_nat X"
    using xpos r0 by (simp add: round_f32_def E_def [symmetric] u r_def [symmetric] X_def)
  have "rat_of_int (2 ^ 23) \<le> of_int r" using r23 by (simp only: of_int_le_iff)
  then have "rat_of_int (2 ^ 23) * of_nat U \<le> of_int r * of_nat U"
    by (rule mult_right_mono) simp
  then have ge: "pow2 E \<le> of_nat X" using r0 by (simp add: pE X_def)
  have "\<bar>of_int r - ?x / of_nat U\<bar> \<le> 1 / 2"
    unfolding r_def by (rule round_nearest_even_error)
  then have "\<bar>of_int r - ?x / of_nat U\<bar> * of_nat U \<le> 1 / 2 * of_nat U"
    by (rule mult_right_mono) simp
  moreover have "\<bar>of_int r - ?x / of_nat U\<bar> * of_nat U = \<bar>of_nat X - ?x\<bar>"
  proof -
    have "\<bar>of_int r - ?x / of_nat U\<bar> * of_nat U = \<bar>(of_int r - ?x / of_nat U) * of_nat U\<bar>"
      by (simp add: abs_mult)
    also have "(of_int r - ?x / of_nat U) * of_nat U = of_nat X - ?x"
      using U0 r0 by (simp add: X_def left_diff_distrib)
    finally show ?thesis .
  qed
  ultimately have "2 * \<bar>rat_of_nat X - ?x\<bar> \<le> pow2 (E - 23)" by (simp add: u)
  with rx ge show ?thesis by blast
qed

lemma rat_square_less_cancel:
  assumes "0 \<le> b" and "a * a < b * b"
  shows "a < (b::rat)"
proof (rule ccontr)
  assume "\<not> a < b"
  then have "b \<le> a" by simp
  from this this assms(1) assms(1) have "b * b \<le> a * a" by (rule mult_mono')
  with assms(2) show False by simp
qed

lemma sqrtf_round_square:
  assumes k: "0 < k" and kk: "k * k < 2 ^ 32"
  shows "sqrtf (round_f32 (of_nat (k * k))) = of_nat k"
proof -
  define X0 where "X0 = k * k"
  define E where "E = exponent (rat_of_nat X0)"
  have X0: "0 < X0" using k by (simp add: X0_def)
  from round_f32_of_nat_near [OF X0, folded E_def]
  obtain X where rx: "round_f32 (of_nat X0) = of_nat X" and ge: "pow2 E \<le> of_nat X"
    and err: "2 * \<bar>rat_of_nat X - of_nat X0\<bar> \<le> pow2 (E - 23)"
    by blast
  have x0pos: "0 < rat_of_nat X0" using X0 by simp
  have lo0: "pow2 E \<le> of_nat X0" unfolding E_def using exponent_bounds [OF x0pos] by simp
  have "0 < rat_of_nat X" using ge pow2_pos [of E] by (rule less_le_trans [rotated])
  then have xpos: "0 < rat_of_nat X" and Xpos: "0 < X" by simp_all
  define e where "e = exponent (rat_of_nat X) div 2"
  have Ele: "E \<le> exponent (rat_of_nat X)" using xpos ge by (rule exponent_ge)
  have e_lo: "E \<le> 2 * e + 1" using Ele unfolding e_def by presburger
  \<comment> \<open>the rounded value stays below \<open>2 ^ 33\<close>\<close>
  have "pow2 (E - 23) \<le> pow2 E" by (rule pow2_mono) simp
  then have "2 * \<bar>rat_of_nat X - of_nat X0\<bar> \<le> of_nat X0" using lo0 err by simp
  then have "rat_of_nat X \<le> 2 * of_nat X0"
    by (simp add: abs_if split: if_splits)
  also have "\<dots> < 2 * 2 ^ 32"
    using of_nat_less_pow2 [OF kk] by (simp add: X0_def)
  also have "\<dots> = pow2 33" by simp
  finally have "exponent (rat_of_nat X) < 33" using xpos by (intro exponent_less)
  then have e23: "e \<le> 23" unfolding e_def by presburger
  define D :: nat where "D = 2 ^ nat (23 - e)"
  have Dr: "rat_of_nat D = pow2 (23 - e)" using e23 by (simp add: D_def pow2_def)
  \<comment> \<open>\<open>2 ^ (E - e) < 2 * k\<close>, by comparing the squares\<close>
  have "pow2 (E - e) * pow2 (E - e) = pow2 (2 * E - 2 * e)"
    using pow2_add [of "E - e" "E - e"] by (simp add: algebra_simps)
  also have "\<dots> \<le> pow2 (E + 1)" by (rule pow2_mono) (use e_lo in simp)
  also have "\<dots> = 2 * pow2 E" using pow2_add [of E 1] by (simp add: pow2_def)
  also have "\<dots> \<le> 2 * of_nat X0" using lo0 by simp
  also have "\<dots> < (2 * of_nat k) * (2 * of_nat k)" using k by (simp add: X0_def)
  finally have "pow2 (E - e) * pow2 (E - e) < (2 * of_nat k) * (2 * of_nat k)" .
  then have p: "pow2 (E - e) < 2 * rat_of_nat k"
    by (rule rat_square_less_cancel [rotated]) simp
  have "2 * \<bar>rat_of_nat X - of_nat X0\<bar> * of_nat D \<le> pow2 (E - 23) * of_nat D"
    using err by (rule mult_right_mono) simp
  also have "\<dots> = pow2 (E - e)" using pow2_add [of "E - 23" "23 - e"] by (simp add: Dr)
  finally have "\<bar>rat_of_nat X - of_nat X0\<bar> * of_nat D < of_nat k" using p by simp
  then have "rat_of_int (\<bar>int X - int (k * k)\<bar> * int D) < rat_of_int (int k)"
    by (simp add: X0_def)
  then have close: "\<bar>int X - int (k * k)\<bar> * int D < int k" by (simp only: of_int_less_iff)
  show ?thesis
    unfolding X0_def [symmetric] rx
    using Xpos e_def e23 D_def k close by (rule sqrtf_near_square)
qed

lemma trunc_of_int [simp]: "trunc (of_int z) = z"
  by (simp add: trunc_def)

lemma trunc_of_nat [simp]: "trunc (of_nat n) = int n"
  by (simp add: trunc_def)

lemma isqrt_floor_sqrt: "int (isqrt n) = \<lfloor>sqrt (real n)\<rfloor>"
proof -
  let ?k = "isqrt n"
  from isqrt_bounds [of n] have b: "?k * ?k \<le> n" "n < (?k + 1) * (?k + 1)" by simp_all
  have "real (?k * ?k) \<le> real n" using b(1) by (simp only: of_nat_le_iff)
  then have "(real ?k)\<^sup>2 \<le> real n" by (simp add: power2_eq_square)
  then have lo: "real ?k \<le> sqrt (real n)" by (rule real_le_rsqrt)
  have "real n < real ((?k + 1) * (?k + 1))" using b(2) by (simp only: of_nat_less_iff)
  then have "real n < (real ?k + 1)\<^sup>2" by (simp add: power2_eq_square algebra_simps)
  then have hi: "sqrt (real n) < real ?k + 1" by (intro real_less_lsqrt) simp_all
  have "\<lfloor>sqrt (real n)\<rfloor> = int ?k" by (rule floor_unique) (use lo hi in simp_all)
  then show ?thesis by simp
qed

lemma isqrt_le_4096: "n \<le> 2 ^ 24 \<Longrightarrow> isqrt n \<le> 4096"
proof -
  assume "n \<le> 2 ^ 24"
  with isqrt_bounds [of n] have "isqrt n * isqrt n \<le> 4096 * 4096" by simp
  then show ?thesis by (rule nat_square_le_cancel)
qed

lemma floor_sqrtf_exact:
  assumes "X \<le> 2 ^ 24"
  shows "\<lfloor>sqrtf (of_nat X)\<rfloor> = int (isqrt X)"
proof -
  consider "X = 0" | "0 < X" "X < 2 ^ 24" | "X = 2 ^ 24" using assms by force
  then show ?thesis
  proof cases
    case 1
    then show ?thesis by (simp add: sqrtf_def isqrt.simps)
  next
    case 2
    then show ?thesis by (rule floor_sqrtf_small)
  next
    case 3
    have x: "rat_of_nat X = 2 ^ 24" by (simp add: 3)
    have "exponent (rat_of_nat X) < 25" by (rule exponent_less) (simp_all add: x)
    moreover have "24 \<le> exponent (rat_of_nat X)" by (rule exponent_ge) (simp_all add: x)
    ultimately have e: "12 = exponent (rat_of_nat X) div 2" by simp
    have "sqrtf (of_nat X) = of_nat 4096"
      by (rule sqrtf_near_square [OF _ e _ refl]) (simp_all add: 3)
    moreover have "isqrt X = 4096" by (rule isqrt_unique) (simp_all add: 3)
    ultimately show ?thesis by simp
  qed
qed

lemma coefficient_lm_exact:
  assumes i: "i \<le> 2 ^ 24"
  shows "coefficient_lm i = (int (isqrt i), int i - int (isqrt i) * int (isqrt i) - int (isqrt i))"
proof -
  define l where "l = isqrt i"
  have l4096: "l \<le> 4096" unfolding l_def using i by (rule isqrt_le_4096)
  from isqrt_bounds [of i] have lb: "l * l \<le> i" by (simp add: l_def)
  have f: "float_of_uint i = of_nat i" unfolding float_of_uint_def using i by (rule round_f32_of_nat)
  have lx: "trunc (floorf (sqrtf (of_nat i))) = int l"
    using floor_sqrtf_exact [OF i] by (simp add: floorf_def l_def)
  have fl: "float_of_int (int l) = of_int (int l)"
    unfolding float_of_int_def by (rule round_f32_of_int) (use l4096 in simp)
  have "int l * int l \<le> int i" using lb by (metis of_nat_le_iff of_nat_mult)
  then have sq_le: "int l * int l \<le> 2 ^ 24" using i by simp
  have p: "powf_2 (of_int (int l)) = of_int (int l * int l)"
    using round_f32_of_int [of "int l * int l"] sq_le by (simp add: powf_2_def)
  have nn: "0 \<le> int l * int l" by simp
  have i': "int i \<le> 16777216" using i by simp
  have ll: "int l \<le> 4096" using l4096 by simp
  have b1: "0 \<le> int i - int l * int l" using \<open>int l * int l \<le> int i\<close> by simp
  have b2: "int i - int l * int l \<le> 16777216" using i' nn by linarith
  have a1: "\<bar>int i - int l * int l\<bar> \<le> 2 ^ 24"
    using b1 b2 by simp
  have d1: "fsub (of_nat i) (of_int (int l * int l)) = of_int (int i - int l * int l)"
    using round_f32_of_int [OF a1] by (simp add: fsub_def)
  have b3: "- 16777216 \<le> int i - int l * int l - int l" using b1 ll by linarith
  have b4: "int i - int l * int l - int l \<le> 16777216" using b2 by linarith
  have a2: "\<bar>int i - int l * int l - int l\<bar> \<le> 2 ^ 24"
    using b3 b4 by (simp add: abs_le_iff)
  have d2: "fsub (of_int (int i - int l * int l)) (of_int (int l))
              = of_int (int i - int l * int l - int l)"
    using round_f32_of_int [OF a2] by (simp add: fsub_def)
  show ?thesis
    unfolding coefficient_lm_def Let_def f lx fl p d1 d2 l_def [symmetric]
    by (simp only: trunc_of_int)
qed

section \<open>The iterations over a coefficient vector\<close>



section \<open>Launches of the accumulating kernels\<close>

lemma atomicAdd_length [simp]: "length (atomicAdd mem a v) = length mem"
  by (simp add: atomicAdd_def)

lemma atomicAdd_nth:
  "j < length mem \<Longrightarrow> atomicAdd mem a v ! j = mem ! j + (if a = j then v else 0)"
  by (simp add: atomicAdd_def nth_list_update)

lemma fold_atomicAdd:
  assumes step: "\<And>w mem. thread w mem = (if inr w then atomicAdd mem (slot w) (val w) else mem)"
  shows "length (fold thread ws mem) = length mem \<and>
         (\<forall>j < length mem. fold thread ws mem ! j =
            mem ! j + sum_list (map val (filter (\<lambda>w. inr w \<and> slot w = j) ws)))"
proof (induction ws arbitrary: mem)
  case Nil
  show ?case by simp
next
  case (Cons w ws)
  have len: "length (thread w mem) = length mem" by (simp add: step)
  have nth: "thread w mem ! j = mem ! j + (if inr w \<and> slot w = j then val w else 0)"
    if "j < length mem" for j
    using that by (simp add: step atomicAdd_nth)
  from Cons.IH [of "thread w mem"] show ?case
    by (auto simp: len nth)
qed

lemma sum_list_filter_distinct:
  "distinct ws \<Longrightarrow> sum_list (map val (filter P ws)) = sum val {w \<in> set ws. P w}"
  using sum_list_distinct_conv_sum_set [of "filter P ws" val] by simp

lemma launch_atomicAdd:
  assumes step: "\<And>w mem. thread w mem = (if inr w then atomicAdd mem (slot w) (val w) else mem)"
    and "distinct ws" and "j < length mem"
  shows "launch thread ws mem ! j = mem ! j + sum val {w \<in> set ws. inr w \<and> slot w = j}"
  using fold_atomicAdd [of thread inr slot val ws mem, OF step] assms(2,3)
  by (simp add: launch_def sum_list_filter_distinct)

lemma launch_atomicAdd_length:
  assumes step: "\<And>w mem. thread w mem = (if inr w then atomicAdd mem (slot w) (val w) else mem)"
  shows "length (launch thread ws mem) = length mem"
  using fold_atomicAdd [of thread inr slot val ws mem, OF step] by (simp add: launch_def)

text \<open>The three atomic kernels in that form.\<close>

lemma calculate_matrix_step:
  "calculate_matrix ext v c vectors out w mem =
     (if fst w < v \<and> fst (snd w) < c
      then atomicAdd mem (out + (fst w + v * fst (snd w)) mod 2 ^ 32)
             (evaluate_index ext (fst (snd w)) (f_y (vectors ! fst w)) (f_z (vectors ! fst w)))
      else mem)"
  by (cases w) (auto simp: calculate_matrix_def)

lemma product_step:
  "product ext n lhs rhs out w mem =
     (if fst w < n \<and> fst (snd w) < n \<and> snd (snd w) < n
      then atomicAdd mem (out + snd (snd w))
             (sqrt (of_int ((2 * fst (coefficient_lm (fst w)) + 1) *
                            (2 * fst (coefficient_lm (fst (snd w))) + 1)) /
                    (4 * pi * of_int (2 * fst (coefficient_lm (snd (snd w))) + 1))) *
              clebsch_gordan ext (fst (coefficient_lm (fst w))) (fst (coefficient_lm (fst (snd w))))
                (fst (coefficient_lm (snd (snd w)))) 0 0 0 *
              clebsch_gordan ext (fst (coefficient_lm (fst w))) (fst (coefficient_lm (fst (snd w))))
                (fst (coefficient_lm (snd (snd w)))) (snd (coefficient_lm (fst w)))
                (snd (coefficient_lm (fst (snd w)))) (snd (coefficient_lm (snd (snd w)))) *
              lhs ! fst w * rhs ! fst (snd w))
      else mem)"
  by (cases w) (auto simp: product_def Let_def)

lemma covers_2d_inrange:
  assumes "covers_2d nx ny ws"
  shows "{w \<in> set ws. fst w < nx \<and> fst (snd w) < ny \<and> P w}
           = {w \<in> (\<lambda>(x, y). (x, y, 0)) ` ({..<nx} \<times> {..<ny}). P w}"
  using assms by (fastforce simp: covers_2d_def)

lemma covers_3d_inrange:
  assumes "covers_3d nx ny nz ws"
  shows "{w \<in> set ws. fst w < nx \<and> fst (snd w) < ny \<and> snd (snd w) < nz \<and> P w}
           = {w \<in> {..<nx} \<times> {..<ny} \<times> {..<nz}. P w}"
  using assms by (fastforce simp: covers_3d_def)

lemma offset_inj:
  assumes "x < v" "d < v" "x + v * y = d + v * (c::nat)"
  shows "x = d \<and> y = c"
proof -
  have "(x + v * y) mod v = x" "(d + v * c) mod v = d" using assms(1,2) by simp_all
  with assms(3) have xd: "x = d" by simp
  with assms have "v * y = v * c" by simp
  with assms(1) have "y = c" by simp
  with xd show ?thesis by simp
qed

lemma offset_less: "d < v \<Longrightarrow> c < n \<Longrightarrow> d + v * c < v * (n::nat)"
proof -
  assume a: "d < v" "c < n"
  then have "d + v * c < v + v * c" by simp
  also have "\<dots> = v * (c + 1)" by simp
  also have "\<dots> \<le> v * n" using a(2) by (intro mult_le_mono2) simp
  finally show ?thesis .
qed

lemma offset_nowrap:
  assumes "x < v" "y < c" "v * c \<le> 2 ^ 32"
  shows "(x + v * y) mod 2 ^ 32 = x + v * (y::nat)"
proof -
  have "x + v * y < v * c" using assms(1,2) by (rule offset_less)
  with assms(3) show ?thesis by simp
qed

lemma calculate_matrix_launch:
  assumes cov: "covers_2d v c ws" and d: "d < v" and ci: "ci < c"
    and bound: "v * c \<le> 2 ^ 32" and len: "d + v * ci < length mem"
  shows "launch (calculate_matrix ext v c vectors 0) ws mem ! (d + v * ci) =
           mem ! (d + v * ci) + evaluate_index ext ci (f_y (vectors ! d)) (f_z (vectors ! d))"
proof -
  let ?val = "\<lambda>w. evaluate_index ext (fst (snd w)) (f_y (vectors ! fst w)) (f_z (vectors ! fst w))"
  let ?inr = "\<lambda>w::dim3. fst w < v \<and> fst (snd w) < c"
  let ?slot = "\<lambda>w::dim3. 0 + (fst w + v * fst (snd w)) mod 2 ^ 32"
  have dist: "distinct ws" using cov by (simp add: covers_2d_def)
  have set: "{w \<in> set ws. ?inr w \<and> ?slot w = d + v * ci} = {(d, ci, 0)}"
  proof -
    have "{w \<in> set ws. ?inr w \<and> ?slot w = d + v * ci}
            = {w \<in> (\<lambda>(x, y). (x, y, 0)) ` ({..<v} \<times> {..<c}). ?slot w = d + v * ci}"
      using covers_2d_inrange [OF cov, of "\<lambda>w. ?slot w = d + v * ci"] by simp
    also have "\<dots> = {(d, ci, 0)}"
      using d ci
      by (auto simp: offset_nowrap [OF _ _ bound] simp del: power_numeral
            dest: offset_inj [rotated 2])
    finally show ?thesis .
  qed
  have "launch (calculate_matrix ext v c vectors 0) ws mem ! (d + v * ci) =
          mem ! (d + v * ci) + sum ?val {w \<in> set ws. ?inr w \<and> ?slot w = d + v * ci}"
    by (rule launch_atomicAdd [OF calculate_matrix_step dist len])
  then show ?thesis unfolding set by simp
qed

lemma product_launch:
  assumes cov: "covers_3d n n n ws" and k: "k < n" and len: "k < length mem"
  shows "launch (product ext n lhs rhs 0) ws mem ! k =
           mem ! k +
           (\<Sum>i<n. \<Sum>j<n.
              sqrt (of_int ((2 * fst (coefficient_lm i) + 1) * (2 * fst (coefficient_lm j) + 1)) /
                    (4 * pi * of_int (2 * fst (coefficient_lm k) + 1))) *
              clebsch_gordan ext (fst (coefficient_lm i)) (fst (coefficient_lm j))
                (fst (coefficient_lm k)) 0 0 0 *
              clebsch_gordan ext (fst (coefficient_lm i)) (fst (coefficient_lm j))
                (fst (coefficient_lm k)) (snd (coefficient_lm i)) (snd (coefficient_lm j))
                (snd (coefficient_lm k)) *
              lhs ! i * rhs ! j)"
proof -
  let ?summand = "\<lambda>i j k.
      sqrt (of_int ((2 * fst (coefficient_lm i) + 1) * (2 * fst (coefficient_lm j) + 1)) /
            (4 * pi * of_int (2 * fst (coefficient_lm k) + 1))) *
      clebsch_gordan ext (fst (coefficient_lm i)) (fst (coefficient_lm j))
        (fst (coefficient_lm k)) 0 0 0 *
      clebsch_gordan ext (fst (coefficient_lm i)) (fst (coefficient_lm j))
        (fst (coefficient_lm k)) (snd (coefficient_lm i)) (snd (coefficient_lm j))
        (snd (coefficient_lm k)) *
      lhs ! i * rhs ! j"
  let ?val = "\<lambda>w::dim3. ?summand (fst w) (fst (snd w)) (snd (snd w))"
  let ?inr = "\<lambda>w::dim3. fst w < n \<and> fst (snd w) < n \<and> snd (snd w) < n"
  let ?slot = "\<lambda>w::dim3. 0 + snd (snd w)"
  have dist: "distinct ws" using cov by (simp add: covers_3d_def)
  have set: "{w \<in> set ws. ?inr w \<and> ?slot w = k} = (\<lambda>(i, j). (i, j, k)) ` ({..<n} \<times> {..<n})"
  proof -
    have "{w \<in> set ws. ?inr w \<and> ?slot w = k}
            = {w \<in> {..<n} \<times> {..<n} \<times> {..<n}. ?slot w = k}"
      using covers_3d_inrange [OF cov, of "\<lambda>w. ?slot w = k"] by simp
    also have "\<dots> = (\<lambda>(i, j). (i, j, k)) ` ({..<n} \<times> {..<n})"
      using k by auto
    finally show ?thesis .
  qed
  have inj: "inj_on (\<lambda>(i, j). (i, j, k)) ({..<n} \<times> {..<n})"
    by (auto simp: inj_on_def)
  have "launch (product ext n lhs rhs 0) ws mem ! k =
          mem ! k + sum ?val {w \<in> set ws. ?inr w \<and> ?slot w = k}"
    by (rule launch_atomicAdd [OF product_step dist len])
  also have "sum ?val {w \<in> set ws. ?inr w \<and> ?slot w = k}
               = (\<Sum>(i, j)\<in>{..<n} \<times> {..<n}. ?summand i j k)"
    unfolding set sum.reindex [OF inj] by (simp add: case_prod_unfold comp_def)
  also have "\<dots> = (\<Sum>i<n. \<Sum>j<n. ?summand i j k)"
    by (simp add: sum.cartesian_product)
  finally show ?thesis .
qed

section \<open>Launches of the sampling kernels\<close>

lemma point_offset_nowrap:
  assumes "longitude < tx" "latitude < ty" "tx * ty \<le> 2 ^ 32"
  shows "point_offset (tx, ty) longitude latitude = latitude + longitude * ty"
proof -
  have "latitude + ty * longitude < ty * tx" using assms(2,1) by (rule offset_less)
  with assms(3) have "latitude + longitude * ty < 2 ^ 32" by (simp add: mult.commute)
  then show ?thesis by (simp add: point_offset_def)
qed

lemma point_offset_decode:
  assumes "longitude < tx" "latitude < ty" "tx * ty \<le> 2 ^ 32"
  shows "point_offset (tx, ty) longitude latitude div ty = longitude"
    and "point_offset (tx, ty) longitude latitude mod ty = latitude"
  unfolding point_offset_nowrap [OF assms] using assms(2) by simp_all

lemma point_offset_less:
  assumes "longitude < tx" "latitude < ty" "tx * ty \<le> 2 ^ 32"
  shows "point_offset (tx, ty) longitude latitude < tx * ty"
proof -
  have "latitude + ty * longitude < ty * tx" using assms(2,1) by (rule offset_less)
  then show ?thesis unfolding point_offset_nowrap [OF assms] by (simp add: mult.commute)
qed

lemma point_offset_inj:
  assumes "longitude < tx" "latitude < ty" "longitude' < tx" "latitude' < ty"
    and "tx * ty \<le> 2 ^ 32"
    and "point_offset (tx, ty) longitude latitude = point_offset (tx, ty) longitude' latitude'"
  shows "longitude = longitude' \<and> latitude = latitude'"
  using point_offset_decode [OF assms(1,2,5)] point_offset_decode [OF assms(3,4,5)] assms(6)
  by simp

lemma point_offset_encode:
  assumes "0 < ty" "p < tx * ty" "tx * ty \<le> 2 ^ 32"
  shows "point_offset (tx, ty) (p div ty) (p mod ty) = p"
proof -
  from assms(2,3) have "p < 2 ^ 32" by simp
  then show ?thesis by (simp add: point_offset_def)
qed

lemma store_indices_length [simp]:
  "length (store_indices indices output_indices index_offset entries) = length indices"
  by (simp add: store_indices_def)

lemma store_indices_nowrap:
  assumes "6 * p + 5 < 2 ^ 32"
  shows "store_indices indices 0 ((6 * p) mod 2 ^ 32) entries =
           indices[6 * p := entries ! 0, 6 * p + 1 := entries ! 1, 6 * p + 2 := entries ! 2,
                   6 * p + 3 := entries ! 3, 6 * p + 4 := entries ! 4, 6 * p + 5 := entries ! 5]"
proof -
  have "(6 * p + k) mod 2 ^ 32 = 6 * p + k" if "k \<le> 5" for k
    using that assms by simp
  from this [of 0] this [of 1] this [of 2] this [of 3] this [of 4] this [of 5]
  show ?thesis by (simp add: store_indices_def)
qed

lemma store_indices_nth:
  assumes "s < length indices" and "6 * p + 5 < 2 ^ 32"
  shows "store_indices indices 0 ((6 * p) mod 2 ^ 32) entries ! s =
           (if s div 6 = p then entries ! (s mod 6) else indices ! s)"
proof (cases "s div 6 = p")
  case True
  then have s: "s = 6 * p + s mod 6" by (metis mult_div_mod_eq)
  have "s mod 6 < 6" by simp
  then consider "s mod 6 = 0" | "s mod 6 = 1" | "s mod 6 = 2" | "s mod 6 = 3" | "s mod 6 = 4"
    | "s mod 6 = 5" by linarith
  then show ?thesis
  proof cases
    case 1 with s True assms(1) show ?thesis
      unfolding store_indices_nowrap [OF assms(2)] by (simp add: nth_list_update)
  next
    case 2 with s True assms(1) show ?thesis
      unfolding store_indices_nowrap [OF assms(2)] by (simp add: nth_list_update)
  next
    case 3 with s True assms(1) show ?thesis
      unfolding store_indices_nowrap [OF assms(2)] by (simp add: nth_list_update)
  next
    case 4 with s True assms(1) show ?thesis
      unfolding store_indices_nowrap [OF assms(2)] by (simp add: nth_list_update)
  next
    case 5 with s True assms(1) show ?thesis
      unfolding store_indices_nowrap [OF assms(2)] by (simp add: nth_list_update)
  next
    case 6 with s True assms(1) show ?thesis
      unfolding store_indices_nowrap [OF assms(2)] by (simp add: nth_list_update)
  qed
next
  case False
  then have "s \<noteq> 6 * p" "s \<noteq> 6 * p + 1" "s \<noteq> 6 * p + 2" "s \<noteq> 6 * p + 3"
    "s \<noteq> 6 * p + 4" "s \<noteq> 6 * p + 5" by auto
  with False show ?thesis unfolding store_indices_nowrap [OF assms(2)] by simp
qed

lemma fold_pair:
  assumes "\<And>w a b. thread w (a, b) = (f w a, g w b)"
  shows "fold thread ws (a, b) = (fold f ws a, fold g ws b)"
  by (induction ws arbitrary: a b) (simp_all add: assms)

lemma fold_overwrite:
  assumes step: "\<And>w xs. thread w xs = (if inr w then xs[slot w := val (slot w)] else xs)"
  shows "length (fold thread ws xs) = length xs \<and>
         (\<forall>j < length xs. fold thread ws xs ! j =
            (if \<exists>w \<in> set ws. inr w \<and> slot w = j then val j else xs ! j))"
proof (induction ws arbitrary: xs)
  case Nil
  show ?case by simp
next
  case (Cons w ws)
  have len: "length (thread w xs) = length xs" by (simp add: step)
  have nth: "thread w xs ! j = (if inr w \<and> slot w = j then val j else xs ! j)"
    if "j < length xs" for j
    using that by (auto simp: step nth_list_update)
  from Cons.IH [of "thread w xs"] show ?case
    by (auto simp: len nth)
qed

lemma fold_store_indices:
  assumes step: "\<And>w xs. thread w xs =
                   (if inr w then store_indices xs 0 ((6 * slot w) mod 2 ^ 32) (entries (slot w))
                    else xs)"
    and bound: "\<And>w. inr w \<Longrightarrow> 6 * slot w + 5 < 2 ^ 32"
  shows "length (fold thread ws xs) = length xs \<and>
         (\<forall>s < length xs. fold thread ws xs ! s =
            (if \<exists>w \<in> set ws. inr w \<and> slot w = s div 6 then entries (s div 6) ! (s mod 6)
             else xs ! s))"
proof (induction ws arbitrary: xs)
  case Nil
  show ?case by simp
next
  case (Cons w ws)
  have len: "length (thread w xs) = length xs" by (simp add: step)
  have nth: "thread w xs ! s =
      (if inr w \<and> slot w = s div 6 then entries (s div 6) ! (s mod 6) else xs ! s)"
    if "s < length xs" for s
  proof (cases "inr w")
    case True
    have "store_indices xs 0 ((6 * slot w) mod 2 ^ 32) (entries (slot w)) ! s =
            (if s div 6 = slot w then entries (slot w) ! (s mod 6) else xs ! s)"
      using that bound [OF True] by (rule store_indices_nth)
    with True show ?thesis by (auto simp: step)
  next
    case False
    then show ?thesis by (simp add: step)
  qed
  from Cons.IH [of "thread w xs"] show ?case
    by (auto simp: len nth)
qed

lemma float3_all_updated:
  "p\<lparr>f_y := b, f_z := c, f_x := a\<rparr> = \<lparr>f_x = a, f_y = b, f_z = c\<rparr>"
  by (cases p) simp

text \<open>What one thread of \<^verbatim>\<open>sample\<close> does, split by buffer.\<close>

lemma sample_step:
  "sample ext l m (tx, ty) 0 0 w (points, indices) =
     (if fst w < tx \<and> fst (snd w) < ty
      then points[point_offset (tx, ty) (fst w) (fst (snd w)) :=
             \<lparr>f_x = evaluate ext l m (grid_theta (tx, ty) (fst w)) (grid_phi (tx, ty) (fst (snd w))),
              f_y = grid_theta (tx, ty) (fst w), f_z = grid_phi (tx, ty) (fst (snd w))\<rparr>]
      else points,
      if fst w < tx \<and> fst (snd w) < ty
      then store_indices indices 0 ((6 * point_offset (tx, ty) (fst w) (fst (snd w))) mod 2 ^ 32)
             (cell_indices 0 (tx, ty) (fst w) (fst (snd w)))
      else indices)"
  by (cases w) (auto simp: sample_def Let_def float3_all_updated)

lemma sample_launch:
  assumes bound: "tx * ty \<le> 2 ^ 32"
  shows "launch (sample ext l m (tx, ty) 0 0) ws (points, indices) =
     (fold (\<lambda>w xs. if fst w < tx \<and> fst (snd w) < ty
                     then xs[point_offset (tx, ty) (fst w) (fst (snd w)) :=
                       (\<lambda>p. \<lparr>f_x = evaluate ext l m (grid_theta (tx, ty) (p div ty))
                                                    (grid_phi (tx, ty) (p mod ty)),
                              f_y = grid_theta (tx, ty) (p div ty),
                              f_z = grid_phi (tx, ty) (p mod ty)\<rparr>)
                         (point_offset (tx, ty) (fst w) (fst (snd w)))]
                     else xs) ws points,
      fold (\<lambda>w xs. if fst w < tx \<and> fst (snd w) < ty
                     then store_indices xs 0
                            ((6 * point_offset (tx, ty) (fst w) (fst (snd w))) mod 2 ^ 32)
                            ((\<lambda>p. cell_indices 0 (tx, ty) (p div ty) (p mod ty))
                               (point_offset (tx, ty) (fst w) (fst (snd w))))
                     else xs) ws indices)"
  unfolding launch_def
  by (rule fold_pair) (auto simp: sample_step point_offset_decode [OF _ _ bound])

lemma sample_launch_points:
  assumes "(longitude, latitude, z) \<in> set ws" "longitude < tx" "latitude < ty"
    and "point_offset (tx, ty) longitude latitude < length points"
    and bound: "tx * ty \<le> 2 ^ 32"
  shows "fst (launch (sample ext l m (tx, ty) 0 0) ws (points, indices))
           ! point_offset (tx, ty) longitude latitude =
         \<lparr>f_x = evaluate ext l m (grid_theta (tx, ty) longitude) (grid_phi (tx, ty) latitude),
          f_y = grid_theta (tx, ty) longitude, f_z = grid_phi (tx, ty) latitude\<rparr>"
proof -
  let ?inr = "\<lambda>w::dim3. fst w < tx \<and> fst (snd w) < ty"
  let ?slot = "\<lambda>w::dim3. point_offset (tx, ty) (fst w) (fst (snd w))"
  let ?val = "\<lambda>p. \<lparr>f_x = evaluate ext l m (grid_theta (tx, ty) (p div ty))
                                          (grid_phi (tx, ty) (p mod ty)),
                    f_y = grid_theta (tx, ty) (p div ty),
                    f_z = grid_phi (tx, ty) (p mod ty)\<rparr>"
  have ex: "\<exists>w \<in> set ws. ?inr w \<and> ?slot w = point_offset (tx, ty) longitude latitude"
    using assms(1-3) by force
  have "fst (launch (sample ext l m (tx, ty) 0 0) ws (points, indices))
           ! point_offset (tx, ty) longitude latitude
        = ?val (point_offset (tx, ty) longitude latitude)"
    unfolding sample_launch [OF bound] fst_conv
    using fold_overwrite [where inr = ?inr and slot = ?slot and val = ?val and ws = ws
        and xs = points, OF refl] assms(4) ex
    by simp
  then show ?thesis by (simp add: point_offset_decode [OF assms(2,3) bound])
qed

lemma sample_launch_indices:
  assumes "s < length indices" and bound: "6 * (tx * ty) \<le> 2 ^ 32"
  shows "snd (launch (sample ext l m (tx, ty) 0 0) ws (points, indices)) ! s =
           (if \<exists>w \<in> set ws. fst w < tx \<and> fst (snd w) < ty \<and>
                  point_offset (tx, ty) (fst w) (fst (snd w)) = s div 6
            then cell_indices 0 (tx, ty) (s div 6 div ty) (s div 6 mod ty) ! (s mod 6)
            else indices ! s)"
proof -
  let ?inr = "\<lambda>w::dim3. fst w < tx \<and> fst (snd w) < ty"
  let ?slot = "\<lambda>w::dim3. point_offset (tx, ty) (fst w) (fst (snd w))"
  have b: "tx * ty \<le> 2 ^ 32" using bound by simp
  have group: "6 * ?slot w + 5 < 2 ^ 32" if "?inr w" for w
  proof -
    from that have "?slot w < tx * ty" by (intro point_offset_less b) simp_all
    with bound show ?thesis by simp
  qed
  show ?thesis
    unfolding sample_launch [OF b] snd_conv
    using fold_store_indices [where inr = ?inr and slot = ?slot and ws = ws and xs = indices
        and entries = "\<lambda>p. cell_indices 0 (tx, ty) (p div ty) (p mod ty)", OF refl group]
      assms(1)
    by simp
qed

text \<open>The threads of a launch, and the entries of a cell.\<close>

lemma set_threads:
  "set (threads (gx, gy, gz) (bx, by, bz)) = {..<gx * bx} \<times> {..<gy * by} \<times> {..<gz * bz}"
  by (auto simp: threads_def)

lemma distinct_threads: "distinct (threads grid_size block_size)"
  by (cases grid_size; cases block_size) (simp add: threads_def distinct_product)

lemma covers_2d_threads:
  assumes "nx \<le> gx * bx" "ny \<le> gy * by"
  shows "covers_2d nx ny (threads (gx, gy, 1) (bx, by, 1))"
  using assms by (auto simp: covers_2d_def distinct_threads set_threads)

lemma covers_3d_threads:
  assumes "nx \<le> gx * bx" "ny \<le> gy * by" "nz \<le> gz * bz"
  shows "covers_3d nx ny nz (threads (gx, gy, gz) (bx, by, bz))"
  using assms by (auto simp: covers_3d_def distinct_threads set_threads)

lemma div_6_less: "s < 6 * n \<Longrightarrow> s div 6 < (n::nat)"
  by presburger

lemma cell_indices_nowrap:
  assumes "longitude < tx" "latitude < ty" "tx * ty \<le> 2 ^ 32"
  shows "cell_indices 0 (tx, ty) longitude latitude =
           [longitude * ty + latitude,
            longitude * ty + (latitude + 1) mod ty,
            (longitude + 1) mod tx * ty + (latitude + 1) mod ty,
            longitude * ty + latitude,
            (longitude + 1) mod tx * ty + (latitude + 1) mod ty,
            (longitude + 1) mod tx * ty + latitude]"
proof -
  have ty: "0 < ty" and tx: "0 < tx" using assms by auto
  have a: "(0 + x * ty + y) mod 2 ^ 32 = x * ty + y" if "x < tx" "y < ty" for x y
  proof -
    have "y + ty * x < ty * tx" using that(2,1) by (rule offset_less)
    with assms(3) have "x * ty + y < 2 ^ 32" by (simp add: mult.commute add.commute)
    then show ?thesis by simp
  qed
  have m1: "(latitude + 1) mod ty < ty" using ty by simp
  have m2: "(longitude + 1) mod tx < tx" using tx by simp
  show ?thesis
    unfolding cell_indices_def prod.case
    using a [OF assms(1) assms(2)] a [OF assms(1) m1] a [OF m2 m1] a [OF m2 assms(2)]
    by (simp only:)
qed

lemma cell_indices_less:
  assumes "longitude < tx" "latitude < ty" "k < 6" "tx * ty \<le> 2 ^ 32"
  shows "cell_indices 0 (tx, ty) longitude latitude ! k < tx * ty"
proof -
  have ty: "0 < ty" and tx: "0 < tx" using assms by auto
  have a: "x * ty + y < tx * ty" if "x < tx" "y < ty" for x y
    using offset_less [OF that(2) that(1)] by (simp add: mult.commute add.commute)
  have m1: "(latitude + 1) mod ty < ty" using ty by simp
  have m2: "(longitude + 1) mod tx < tx" using tx by simp
  from assms(3) consider "k = 0" | "k = 1" | "k = 2" | "k = 3" | "k = 4" | "k = 5" by linarith
  then show ?thesis
    unfolding cell_indices_nowrap [OF assms(1,2,4)]
    using a [OF assms(1) assms(2)] a [OF assms(1) m1] a [OF m2 m1] a [OF m2 assms(2)]
    by cases simp_all
qed

lemma point_offset_unique_cell:
  assumes p: "p < tx * ty" and bound: "tx * ty \<le> 2 ^ 32"
  shows "\<exists>!w. fst w < tx \<and> snd w < ty \<and> point_offset (tx, ty) (fst w) (snd w) = p"
proof (rule ex1I [of _ "(p div ty, p mod ty)"])
  from p have ty: "0 < ty" by (cases ty) simp_all
  have "p div ty < tx" using p ty by (simp add: less_mult_imp_div_less mult.commute)
  moreover have "p mod ty < ty" using ty by simp
  ultimately show "fst (p div ty, p mod ty) < tx \<and> snd (p div ty, p mod ty) < ty \<and>
      point_offset (tx, ty) (fst (p div ty, p mod ty)) (snd (p div ty, p mod ty)) = p"
    using point_offset_encode [OF ty p bound] by simp
next
  fix w :: "nat \<times> nat"
  assume w: "fst w < tx \<and> snd w < ty \<and> point_offset (tx, ty) (fst w) (snd w) = p"
  then have "fst w < tx" "snd w < ty" and "point_offset (tx, ty) (fst w) (snd w) = p"
    by simp_all
  with point_offset_decode [of "fst w" tx "snd w" ty] bound
  have "p div ty = fst w" "p mod ty = snd w" by simp_all
  then show "w = (p div ty, p mod ty)" by simp
qed

lemma index_slot_unique_cell:
  assumes s: "s < 6 * (tx * ty)" and bound: "tx * ty \<le> 2 ^ 32"
  shows "\<exists>!w. fst w < tx \<and> snd w < ty \<and>
        6 * point_offset (tx, ty) (fst w) (snd w) \<le> s \<and>
        s < 6 * point_offset (tx, ty) (fst w) (snd w) + 6"
proof -
  have eq: "(6 * q \<le> s \<and> s < 6 * q + 6) = (q = s div 6)" for q
  proof
    assume "6 * q \<le> s \<and> s < 6 * q + 6"
    then have "s div 6 = q" by (intro div_nat_eqI) simp_all
    then show "q = s div 6" by simp
  next
    assume q: "q = s div 6"
    have "s = 6 * (s div 6) + s mod 6" by simp
    moreover have "s mod 6 < 6" by simp
    ultimately show "6 * q \<le> s \<and> s < 6 * q + 6" unfolding q by linarith
  qed
  from s have "s div 6 < tx * ty" by (rule div_6_less)
  then have "\<exists>!w. fst w < tx \<and> snd w < ty \<and> point_offset (tx, ty) (fst w) (snd w) = s div 6"
    using bound by (rule point_offset_unique_cell)
  then show ?thesis unfolding eq .
qed

text \<open>
  One thread of \<^verbatim>\<open>sample\<close>, when no offset wraps: it overwrites its vertex and the six
  entries of its cell; a thread outside the grid does nothing.
\<close>

lemma sample_thread_effect:
  assumes lon: "longitude < tx" and lat: "latitude < ty" and bound: "6 * (tx * ty) \<le> 2 ^ 32"
  shows "sample ext l m (tx, ty) 0 0 (longitude, latitude, z) (points, indices) =
           (points[latitude + longitude * ty :=
              \<lparr>f_x = evaluate ext l m (grid_theta (tx, ty) longitude) (grid_phi (tx, ty) latitude),
               f_y = grid_theta (tx, ty) longitude, f_z = grid_phi (tx, ty) latitude\<rparr>],
            indices
              [6 * (latitude + longitude * ty) := longitude * ty + latitude,
               6 * (latitude + longitude * ty) + 1 := longitude * ty + (latitude + 1) mod ty,
               6 * (latitude + longitude * ty) + 2 :=
                 (longitude + 1) mod tx * ty + (latitude + 1) mod ty,
               6 * (latitude + longitude * ty) + 3 := longitude * ty + latitude,
               6 * (latitude + longitude * ty) + 4 :=
                 (longitude + 1) mod tx * ty + (latitude + 1) mod ty,
               6 * (latitude + longitude * ty) + 5 := (longitude + 1) mod tx * ty + latitude])"
proof -
  have b: "tx * ty \<le> 2 ^ 32" using bound by simp
  have po: "point_offset (tx, ty) longitude latitude = latitude + longitude * ty"
    using lon lat b by (rule point_offset_nowrap)
  have "latitude + longitude * ty < tx * ty"
    using point_offset_less [OF lon lat b] unfolding po .
  with bound have g: "6 * (latitude + longitude * ty) + 5 < 2 ^ 32" by simp
  have "sample ext l m (tx, ty) 0 0 (longitude, latitude, z) (points, indices) =
          (points[point_offset (tx, ty) longitude latitude :=
             \<lparr>f_x = evaluate ext l m (grid_theta (tx, ty) longitude) (grid_phi (tx, ty) latitude),
              f_y = grid_theta (tx, ty) longitude, f_z = grid_phi (tx, ty) latitude\<rparr>],
           store_indices indices 0 ((6 * point_offset (tx, ty) longitude latitude) mod 2 ^ 32)
             (cell_indices 0 (tx, ty) longitude latitude))"
    unfolding sample_step using lon lat by simp
  then show ?thesis
    unfolding po store_indices_nowrap [OF g] cell_indices_nowrap [OF lon lat b] by simp
qed

lemma sample_thread_idle:
  assumes "\<not> (longitude < tx \<and> latitude < ty)"
  shows "sample ext l m (tx, ty) 0 0 (longitude, latitude, z) (points, indices) =
           (points, indices)"
  using assms by (auto simp: sample_def)

text \<open>What one thread of \<^verbatim>\<open>sample_sum\<close> does, split by buffer.\<close>

lemma sample_sum_step:
  "sample_sum ext n (tx, ty) cs 0 0 base w (points, indices) =
     (if fst w < tx \<and> fst (snd w) < ty \<and> snd (snd w) < n
      then points[point_offset (tx, ty) (fst w) (fst (snd w)) :=
             \<lparr>f_x = (if snd (snd w) = 0 then 0
                     else f_x (points ! point_offset (tx, ty) (fst w) (fst (snd w)))) +
                    evaluate_index ext (snd (snd w)) (grid_theta (tx, ty) (fst w))
                      (grid_phi (tx, ty) (fst (snd w))) * cs ! snd (snd w),
              f_y = grid_theta (tx, ty) (fst w), f_z = grid_phi (tx, ty) (fst (snd w))\<rparr>]
      else points,
      if fst w < tx \<and> fst (snd w) < ty \<and> snd (snd w) < n \<and> snd (snd w) = 0
      then store_indices indices 0 ((6 * point_offset (tx, ty) (fst w) (fst (snd w))) mod 2 ^ 32)
             (cell_indices base (tx, ty) (fst w) (fst (snd w)))
      else indices)"
proof (cases w)
  case (fields a b c)
  show ?thesis
    unfolding fields sample_sum_def Let_def
    by (cases "points ! point_offset (tx, ty) a b") (simp add: not_le)
qed

lemma sample_sum_points_dc:
  assumes dc: "\<forall>ci. 0 < ci \<and> ci < n \<longrightarrow> cs ! ci = 0"
    and w0: "(longitude, latitude, 0) \<in> set ws"
    and inr: "longitude < tx" "latitude < ty" "0 < n"
    and len: "point_offset (tx, ty) longitude latitude < length points"
    and bound: "tx * ty \<le> 2 ^ 32"
  shows "fst (launch (sample_sum ext n (tx, ty) cs 0 0 base) ws (points, indices))
           ! point_offset (tx, ty) longitude latitude =
         \<lparr>f_x = evaluate_index ext 0 (grid_theta (tx, ty) longitude) (grid_phi (tx, ty) latitude)
                  * cs ! 0,
          f_y = grid_theta (tx, ty) longitude, f_z = grid_phi (tx, ty) latitude\<rparr>"
proof -
  let ?po = "point_offset (tx, ty) longitude latitude"
  let ?target = "\<lparr>f_x = evaluate_index ext 0 (grid_theta (tx, ty) longitude)
                            (grid_phi (tx, ty) latitude) * cs ! 0,
                   f_y = grid_theta (tx, ty) longitude, f_z = grid_phi (tx, ty) latitude\<rparr>"
  define f where "f = (\<lambda>(w::dim3) xs.
      if fst w < tx \<and> fst (snd w) < ty \<and> snd (snd w) < n
      then xs[point_offset (tx, ty) (fst w) (fst (snd w)) :=
             \<lparr>f_x = (if snd (snd w) = 0 then 0
                     else f_x (xs ! point_offset (tx, ty) (fst w) (fst (snd w)))) +
                    evaluate_index ext (snd (snd w)) (grid_theta (tx, ty) (fst w))
                      (grid_phi (tx, ty) (fst (snd w))) * cs ! snd (snd w),
              f_y = grid_theta (tx, ty) (fst w), f_z = grid_phi (tx, ty) (fst (snd w))\<rparr>]
      else xs)"
  define g where "g = (\<lambda>(w::dim3) xs.
      if fst w < tx \<and> fst (snd w) < ty \<and> snd (snd w) < n \<and> snd (snd w) = 0
      then store_indices xs 0 ((6 * point_offset (tx, ty) (fst w) (fst (snd w))) mod 2 ^ 32)
             (cell_indices base (tx, ty) (fst w) (fst (snd w)))
      else xs)"
  have split: "launch (sample_sum ext n (tx, ty) cs 0 0 base) ws (points, indices)
                 = (fold f ws points, fold g ws indices)"
    unfolding launch_def by (rule fold_pair) (simp add: sample_sum_step f_def g_def)
  have flen: "length (f w xs) = length xs" for w xs by (simp add: f_def)
  have inv: "length (fold f ws points) = length points \<and>
             ((longitude, latitude, 0) \<in> set ws \<longrightarrow> fold f ws points ! ?po = ?target)"
  proof (induction ws rule: rev_induct)
    case Nil
    show ?case by simp
  next
    case (snoc w ws)
    define s where "s = fold f ws points"
    have slen: "length s = length points" using snoc.IH by (simp add: s_def)
    have step: "fold f (ws @ [w]) points = f w s" by (simp add: s_def)
    obtain a b c where w: "w = (a, b, c)" by (cases w)
    have "f w s ! ?po = ?target" if mem: "(longitude, latitude, 0) \<in> set (ws @ [w])"
    proof (cases "a < tx \<and> b < ty \<and> c < n")
      case False
      then have "w \<noteq> (longitude, latitude, 0)" using inr w by auto
      with mem have "(longitude, latitude, 0) \<in> set ws" by simp
      with snoc.IH have "s ! ?po = ?target" by (simp add: s_def)
      moreover have "f w s = s" using False by (auto simp: f_def w)
      ultimately show ?thesis by simp
    next
      case True
      show ?thesis
      proof (cases "point_offset (tx, ty) a b = ?po")
        case False
        then have "w \<noteq> (longitude, latitude, 0)" using w by auto
        with mem have "(longitude, latitude, 0) \<in> set ws" by simp
        with snoc.IH have "s ! ?po = ?target" by (simp add: s_def)
        moreover have "f w s ! ?po = s ! ?po" using True False by (simp add: f_def w)
        ultimately show ?thesis by simp
      next
        case same: True
        from True inr(1,2) same have ab: "a = longitude" "b = latitude"
          using point_offset_inj [of a tx b ty longitude latitude, OF _ _ _ _ bound] by simp_all
        show ?thesis
        proof (cases "c = 0")
          case True
          with \<open>a < tx \<and> b < ty \<and> c < n\<close> len slen show ?thesis
            by (simp add: f_def w ab)
        next
          case False
          then have "w \<noteq> (longitude, latitude, 0)" using w by auto
          with mem have "(longitude, latitude, 0) \<in> set ws" by simp
          with snoc.IH have old: "s ! ?po = ?target" by (simp add: s_def)
          have "cs ! c = 0" using dc False \<open>a < tx \<and> b < ty \<and> c < n\<close> by simp
          with \<open>a < tx \<and> b < ty \<and> c < n\<close> False len slen old show ?thesis
            by (simp add: f_def w ab)
        qed
      qed
    qed
    then show ?case unfolding step by (simp add: flen slen)
  qed
  with w0 show ?thesis unfolding split fst_conv by simp
qed

text \<open>The index \<open>0\<close> is degree \<open>0\<close>, order \<open>0\<close>.\<close>

lemma coefficient_lm_0: "coefficient_lm 0 = (0, 0)"
  using coefficient_lm_exact [of 0] by (simp add: isqrt.simps)

lemma evaluate_index_0: "evaluate_index ext 0 theta phi = evaluate ext 0 0 theta phi"
  by (simp add: evaluate_index_def coefficient_lm_0 uint_of_int_def)

text \<open>The indices \<open>1\<close> and \<open>2\<close> are degree \<open>1\<close>, orders \<open>-1\<close> and \<open>0\<close>.\<close>

lemma isqrt_1_2: "isqrt (Suc 0) = Suc 0" "isqrt 2 = 1"
  by (simp_all add: isqrt.simps)

lemma coefficient_lm_1: "coefficient_lm (Suc 0) = (1, - 1)"
  using coefficient_lm_exact [of 1] by (simp add: isqrt_1_2)

lemma coefficient_lm_2: "coefficient_lm 2 = (1, 0)"
  using coefficient_lm_exact [of 2] by (simp add: isqrt_1_2)

section \<open>Nested launches\<close>

lemma fold_id:
  assumes "\<And>w s. w \<in> set ws \<Longrightarrow> f w s = s"
  shows "fold f ws s = s"
  using assms by (induction ws arbitrary: s) simp_all

lemma fold_single:
  assumes "distinct ws" and "w0 \<in> set ws"
    and idle: "\<And>w s. w \<noteq> w0 \<Longrightarrow> f w s = s"
  shows "fold f ws s = f w0 s"
proof -
  from assms(2) obtain ys zs where ws: "ws = ys @ w0 # zs" by (auto simp: in_set_conv_decomp)
  with assms(1) have "w0 \<notin> set ys" "w0 \<notin> set zs" by auto
  then have "fold f ys s = s" "fold f zs (f w0 s) = f w0 s"
    by (auto intro!: fold_id idle)
  then show ?thesis by (simp add: ws)
qed

text \<open>The grid of a nested launch covers its index space up to \<open>2\<^sup>2\<^sup>4\<close> items.\<close>

lemma grid_dim_exact:
  assumes "n \<le> 2 ^ 24" and "b = 8 \<or> b = 16"
  shows "grid_dim n b = nat \<lceil>rat_of_nat n / of_nat b\<rceil>"
proof -
  have fn: "float_of_uint n = of_nat n"
    unfolding float_of_uint_def using assms(1) by (rule round_f32_of_nat)
  have fb: "float_of_uint b = of_nat b"
    unfolding float_of_uint_def using assms(2) by (intro round_f32_of_nat) auto
  have "\<exists>E. rat_of_nat n / of_nat b = of_int (int n) * pow2 E"
    using assms(2) by (auto simp: pow2_def intro: exI [of _ "- 3"] exI [of _ "- 4"])
  then obtain E where "rat_of_nat n / of_nat b = of_int (int n) * pow2 E" ..
  then have "round_f32 (rat_of_nat n / of_nat b) = rat_of_nat n / of_nat b"
    by (rule round_f32_exact) (use assms(1) in simp)
  then show ?thesis
    by (simp add: grid_dim_def fn fb fdiv_def ceilf_def)
qed

lemma grid_dim_covers:
  assumes "n \<le> 2 ^ 24" and "b = 8 \<or> b = 16"
  shows "n \<le> grid_dim n b * b"
proof -
  have b0: "0 < b" using assms(2) by auto
  let ?q = "rat_of_nat n / of_nat b"
  have "?q \<le> of_int \<lceil>?q\<rceil>" by (rule le_of_int_ceiling)
  moreover have "0 \<le> \<lceil>?q\<rceil>"
  proof -
    have "0 \<le> ?q" by simp
    then have "- 1 < ?q" by linarith
    then show ?thesis by (simp only: zero_le_ceiling)
  qed
  ultimately have "?q \<le> of_nat (nat \<lceil>?q\<rceil>)" by simp
  then have "?q * of_nat b \<le> of_nat (nat \<lceil>?q\<rceil>) * of_nat b"
    by (rule mult_right_mono) simp
  moreover have "?q * of_nat b = rat_of_nat n" using b0 by simp
  ultimately have "rat_of_nat n \<le> of_nat (nat \<lceil>?q\<rceil>) * of_nat b"
    by (simp only:)
  then have "rat_of_nat n \<le> of_nat (nat \<lceil>?q\<rceil> * b)" by simp
  then have "n \<le> nat \<lceil>?q\<rceil> * b" by (simp only: of_nat_le_iff)
  then show ?thesis unfolding grid_dim_exact [OF assms] .
qed

lemma calculate_matrix_schedules:
  assumes "covers_2d v c ws" and "covers_2d v c ws'"
  shows "launch (calculate_matrix ext v c vectors out) ws mem
           = launch (calculate_matrix ext v c vectors out) ws' mem"
proof (rule nth_equalityI)
  show "length (launch (calculate_matrix ext v c vectors out) ws mem)
          = length (launch (calculate_matrix ext v c vectors out) ws' mem)"
    by (simp add: launch_atomicAdd_length [OF calculate_matrix_step])
next
  fix j
  assume "j < length (launch (calculate_matrix ext v c vectors out) ws mem)"
  then have j: "j < length mem"
    by (simp add: launch_atomicAdd_length [OF calculate_matrix_step])
  have d: "distinct ws" "distinct ws'" using assms by (simp_all add: covers_2d_def)
  let ?P = "\<lambda>w::dim3. out + (fst w + v * fst (snd w)) mod 2 ^ 32 = j"
  have "{w \<in> set ws. (fst w < v \<and> fst (snd w) < c) \<and> ?P w}
          = {w \<in> set ws'. (fst w < v \<and> fst (snd w) < c) \<and> ?P w}"
    using covers_2d_inrange [OF assms(1), of ?P] covers_2d_inrange [OF assms(2), of ?P]
    by (simp only: conj_assoc)
  then show "launch (calculate_matrix ext v c vectors out) ws mem ! j
          = launch (calculate_matrix ext v c vectors out) ws' mem ! j"
    unfolding launch_atomicAdd [OF calculate_matrix_step d(1) j]
      launch_atomicAdd [OF calculate_matrix_step d(2) j]
    by (simp only:)
qed

lemma product_schedules:
  assumes "covers_3d n n n ws" and "covers_3d n n n ws'"
  shows "launch (product ext n lhs rhs out) ws mem = launch (product ext n lhs rhs out) ws' mem"
proof (rule nth_equalityI)
  show "length (launch (product ext n lhs rhs out) ws mem)
          = length (launch (product ext n lhs rhs out) ws' mem)"
    by (simp add: launch_atomicAdd_length [OF product_step])
next
  fix j
  assume "j < length (launch (product ext n lhs rhs out) ws mem)"
  then have j: "j < length mem" by (simp add: launch_atomicAdd_length [OF product_step])
  have d: "distinct ws" "distinct ws'" using assms by (simp_all add: covers_3d_def)
  let ?P = "\<lambda>w::dim3. out + snd (snd w) = j"
  have "{w \<in> set ws. (fst w < n \<and> fst (snd w) < n \<and> snd (snd w) < n) \<and> ?P w}
          = {w \<in> set ws'. (fst w < n \<and> fst (snd w) < n \<and> snd (snd w) < n) \<and> ?P w}"
    using covers_3d_inrange [OF assms(1), of ?P] covers_3d_inrange [OF assms(2), of ?P]
    by (simp only: conj_assoc)
  then show "launch (product ext n lhs rhs out) ws mem ! j
          = launch (product ext n lhs rhs out) ws' mem ! j"
    unfolding launch_atomicAdd [OF product_step d(1) j]
      launch_atomicAdd [OF product_step d(2) j]
    by (simp only:)
qed

text \<open>With \<open>dimensions = (1, 1, 1)\<close> only the thread \<open>(0, 0, 0)\<close> of a batched kernel acts.\<close>

lemma calculate_matrices_unit:
  assumes "distinct ws" and "(0, 0, 0) \<in> set ws"
  shows "launch (calculate_matrices ext (1, 1, 1) v c vectors out) ws mem =
           launch (calculate_matrix ext v c vectors out)
             (threads (grid_dim v 16, grid_dim c 16, 1) block_size_2d) mem"
proof -
  have idle: "calculate_matrices ext (1, 1, 1) v c vectors out w s = s" if "w \<noteq> (0, 0, 0)" for w s
    using that by (cases w) (auto simp: calculate_matrices_def)
  have "launch (calculate_matrices ext (1, 1, 1) v c vectors out) ws mem
          = calculate_matrices ext (1, 1, 1) v c vectors out (0, 0, 0) mem"
    unfolding launch_def using assms idle by (rule fold_single)
  then show ?thesis by (simp add: calculate_matrices_def block_size_2d_def)
qed

lemma sample_sums_unit:
  assumes "distinct ws" and "(0, 0, 0) \<in> set ws" and "base < 2 ^ 32"
  shows "launch (sample_sums ext (1, 1, 1) n tessellations cs output_points output_indices base)
           ws s =
         launch (sample_sum ext n tessellations cs output_points output_indices base)
           (threads (grid_dim (fst tessellations) 8, grid_dim (snd tessellations) 8, grid_dim n 8)
              block_size_3d) s"
proof -
  have idle: "sample_sums ext (1, 1, 1) n tessellations cs output_points output_indices base w t
                = t" if "w \<noteq> (0, 0, 0)" for w t
    using that by (cases w) (auto simp: sample_sums_def)
  have "launch (sample_sums ext (1, 1, 1) n tessellations cs output_points output_indices base)
          ws s
          = sample_sums ext (1, 1, 1) n tessellations cs output_points output_indices base
              (0, 0, 0) s"
    unfolding launch_def using assms(1,2) idle by (rule fold_single)
  then show ?thesis using assms(3) by (simp add: sample_sums_def block_size_3d_def)
qed

lemma product_volume_unit:
  assumes "distinct ws" and "(0, 0, 0) \<in> set ws"
  shows "launch (product_volume ext (1, 1, 1) n lhs rhs out) ws mem =
           launch (product ext n lhs rhs out)
             (threads (grid_dim n 8, grid_dim n 8, grid_dim n 8) block_size_3d) mem"
proof -
  have idle: "product_volume ext (1, 1, 1) n lhs rhs out w s = s" if "w \<noteq> (0, 0, 0)" for w s
    using that by (cases w) (auto simp: product_volume_def)
  have "launch (product_volume ext (1, 1, 1) n lhs rhs out) ws mem
          = product_volume ext (1, 1, 1) n lhs rhs out (0, 0, 0) mem"
    unfolding launch_def using assms idle by (rule fold_single)
  then show ?thesis by (simp add: product_volume_def block_size_3d_def)
qed

text \<open>A grid that single precision rounds down.\<close>

lemma grid_dim_rounds_down: "grid_dim 16777217 16 = 1048576"
  by code_simp

lemma evaluate_reference_0:
  "evaluate_index reference_externals 0 theta phi = sqrt (1 / (4 * pi))"
  by (simp add: evaluate_index_0 evaluate_def reference_externals_def)

lemma evaluate_reference_2:
  "evaluate_index reference_externals 2 theta phi = sqrt (3 / (4 * pi))"
  by (simp add: evaluate_index_def coefficient_lm_2 uint_of_int_def evaluate_def
        reference_externals_def)

lemma calculate_matrix_untouched:
  assumes "\<forall>w \<in> set ws. \<not> (fst w < v \<and> fst (snd w) < c \<and>
               out + (fst w + v * fst (snd w)) mod 2 ^ 32 = j)"
    and "distinct ws" and "j < length mem"
  shows "launch (calculate_matrix ext v c vectors out) ws mem ! j = mem ! j"
proof -
  have empty:
    "{w \<in> set ws. (fst w < v \<and> fst (snd w) < c) \<and>
        out + (fst w + v * fst (snd w)) mod 2 ^ 32 = j} = {}"
    using assms(1) by auto
  show ?thesis
    unfolding launch_atomicAdd [OF calculate_matrix_step assms(2,3)] empty by simp
qed

section \<open>Index mapping: the round trips\<close>

text \<open>
  C4, as amended: for every \<open>max_l \<le> 65534\<close>, that is whenever \<open>(max_l + 1)\<^sup>2\<close> fits an
  \<^verbatim>\<open>unsigned int\<close>, \<^verbatim>\<open>maximum_degree(coefficient_count(max_l))\<close> is \<open>max_l\<close>: the
  single-precision root of the rounded square is exact.
\<close>

theorem maximum_degree_inverts_coefficient_count:
  assumes "max_l \<le> 65534"
  shows "maximum_degree (coefficient_count max_l) = Some max_l"
proof -
  define k where "k = max_l + 1"
  have k: "0 < k" "k \<le> 65535" using assms by (simp_all add: k_def)
  from k(2) k(2) have "k * k \<le> 65535 * 65535" by (rule mult_le_mono)
  then have kk: "k * k < 2 ^ 32" by simp
  then have cc: "coefficient_count max_l = k * k" by (simp add: coefficient_count_def k_def)
  have s: "sqrtf (float_of_uint (k * k)) = of_nat k"
    unfolding float_of_uint_def using k(1) kk by (rule sqrtf_round_square)
  have one: "float_of_int 1 = 1" using round_f32_of_int [of 1] by (simp add: float_of_int_def)
  have "rat_of_nat k - 1 = of_int (int max_l)" by (simp add: k_def)
  moreover have "round_f32 (of_int (int max_l)) = of_int (int max_l)"
    by (rule round_f32_of_int) (use assms in simp)
  ultimately have d: "fsub (of_nat k) 1 = of_nat max_l" by (simp add: fsub_def)
  have "rat_of_nat max_l < of_nat (2 ^ 32)" using assms by (simp only: of_nat_less_iff) simp
  then have r: "rat_of_nat max_l < 2 ^ 32" by simp
  show ?thesis unfolding maximum_degree_def cc s one d using r by (simp add: uint_of_float_def)
qed

text \<open>Witness for C4 at \<open>max_l = 3\<close> (16 coefficients).\<close>

theorem maximum_degree_inverts_coefficient_count_witness:
  "(3::nat) \<le> 65534 \<and> maximum_degree (coefficient_count 3) = Some 3"
  using maximum_degree_inverts_coefficient_count [of 3] by simp




text \<open>
  C4 as stated, for every integer \<open>max_l \<ge> 0\<close>, fails: for \<open>max_l = 65536\<close> the product
  \<open>65537 * 65537\<close> wraps to \<open>131073\<close>, whose root is \<open>362.04\<close>, and the result is \<open>361\<close>.
\<close>

theorem maximum_degree_wraps_counterexample:
  "maximum_degree (coefficient_count 65536) = Some 361 \<and>
   maximum_degree (coefficient_count 65536) \<noteq> Some 65536"
  by code_simp

text \<open>
  C2, as amended: for every index \<open>i \<le> 2\<^sup>2\<^sup>4\<close> (the integers that single precision
  represents exactly), \<^verbatim>\<open>coefficient_lm\<close> computes \<open>l = \<lfloor>sqrt i\<rfloor>\<close> and \<open>m = i - l\<^sup>2 - l\<close>,
  and \<^verbatim>\<open>coefficient_index\<close> maps the pair back to \<open>i\<close>.
\<close>

theorem coefficient_lm_left_inverse:
  assumes "i \<le> 2 ^ 24"
  shows "coefficient_lm i =
           (\<lfloor>sqrt (real i)\<rfloor>, int i - \<lfloor>sqrt (real i)\<rfloor> * \<lfloor>sqrt (real i)\<rfloor> - \<lfloor>sqrt (real i)\<rfloor>)
         \<and> coefficient_index (uint_of_int (fst (coefficient_lm i))) (snd (coefficient_lm i)) = i"
proof -
  have lm: "coefficient_lm i =
      (int (isqrt i), int i - int (isqrt i) * int (isqrt i) - int (isqrt i))"
    using assms by (rule coefficient_lm_exact)
  have l: "isqrt i \<le> 4096" using assms by (rule isqrt_le_4096)
  have u: "uint_of_int (int (isqrt i)) = isqrt i" using l by (simp add: uint_of_int_def)
  have "int (isqrt i) * (int (isqrt i) + 1) + (int i - int (isqrt i) * int (isqrt i) - int (isqrt i)) = int i"
    by (simp add: algebra_simps)
  then have "coefficient_index (isqrt i) (int i - int (isqrt i) * int (isqrt i) - int (isqrt i)) = i"
    using assms by (simp add: coefficient_index_def uint_of_int_def)
  then show ?thesis
    unfolding lm fst_conv snd_conv u isqrt_floor_sqrt [symmetric] by simp
qed

text \<open>Witness for C2 at \<open>i = 7\<close>, which decodes to degree 2 and order 1.\<close>

theorem coefficient_lm_left_inverse_witness:
  "(7::nat) \<le> 2 ^ 24 \<and> coefficient_lm 7 = (2, 1)
     \<and> coefficient_index (uint_of_int (fst (coefficient_lm 7))) (snd (coefficient_lm 7)) = 7"
proof -
  have s: "\<lfloor>sqrt (7::real)\<rfloor> = 2"
    by (rule floor_unique) (auto intro: real_le_rsqrt real_less_lsqrt simp: power2_eq_square)
  have h: "(7::nat) \<le> 2 ^ 24" by simp
  have lm: "coefficient_lm 7 = (2, 1)"
    using coefficient_lm_left_inverse [OF h] by (simp add: s)
  from coefficient_lm_left_inverse [OF h]
  have "coefficient_index (uint_of_int (fst (coefficient_lm 7))) (snd (coefficient_lm 7)) = 7"
    by (rule conjunct2)
  with h lm show ?thesis by blast
qed




text \<open>
  C2 as stated, for every non-negative integer \<open>i\<close>, fails: \<open>i = 2\<^sup>2\<^sup>4 + 1\<close> is rounded to
  \<open>2\<^sup>2\<^sup>4\<close> by the conversion to \<^verbatim>\<open>float\<close>, decodes to \<open>(4096, -4096)\<close>, and that pair
  encodes \<open>2\<^sup>2\<^sup>4\<close>.
\<close>

theorem coefficient_lm_single_precision_counterexample:
  "coefficient_lm 16777217 = (4096, - 4096) \<and>
   coefficient_index (uint_of_int (fst (coefficient_lm 16777217))) (snd (coefficient_lm 16777217))
     \<noteq> 16777217"
  by code_simp

section \<open>Basis evaluation: the formula\<close>

text \<open>
  C1: for every degree \<open>l\<close>, every order \<open>m\<close> with \<open>-l \<le> m \<le> l\<close> and all angles,
  \<^verbatim>\<open>evaluate(l, m, theta, phi)\<close> returns \<open>sqrt 2 * k * cos (m * theta) * P l m (cos phi)\<close>
  for \<open>m > 0\<close>, \<open>sqrt 2 * k * sin (-m * theta) * P l (-m) (cos phi)\<close> for \<open>m < 0\<close> and
  \<open>k * P l 0 (cos phi)\<close> for \<open>m = 0\<close>, where
  \<open>k = sqrt ((2 l + 1) * (l - |m|)! / (4 \<pi> * (l + |m|)!))\<close>, \<open>P\<close> is the external associated
  Legendre evaluator and the factorials are those of the external factorial function.
\<close>

theorem evaluate_formula:
  assumes "- int l \<le> m" and "m \<le> int l"
  shows "(0 < m \<longrightarrow> evaluate ext l m theta phi =
            sqrt 2 *
            sqrt ((2 * real l + 1) * factorial ext (nat (int l - \<bar>m\<bar>)) /
                  (4 * pi * factorial ext (nat (int l + \<bar>m\<bar>)))) *
            cos (of_int m * theta) * associated_legendre ext l m (cos phi)) \<and>
         (m < 0 \<longrightarrow> evaluate ext l m theta phi =
            sqrt 2 *
            sqrt ((2 * real l + 1) * factorial ext (nat (int l - \<bar>m\<bar>)) /
                  (4 * pi * factorial ext (nat (int l + \<bar>m\<bar>)))) *
            sin (of_int (- m) * theta) * associated_legendre ext l (- m) (cos phi)) \<and>
         (m = 0 \<longrightarrow> evaluate ext l m theta phi =
            sqrt ((2 * real l + 1) * factorial ext (nat (int l - \<bar>m\<bar>)) /
                  (4 * pi * factorial ext (nat (int l + \<bar>m\<bar>)))) *
            associated_legendre ext l 0 (cos phi))"
proof -
  have a: "l - nat \<bar>m\<bar> = nat (int l - \<bar>m\<bar>)" using assms by linarith
  have b: "l + nat \<bar>m\<bar> = nat (int l + \<bar>m\<bar>)" by linarith
  show ?thesis unfolding evaluate_def Let_def a b by simp
qed

text \<open>
  Witness for C1 at \<open>l = 2\<close>, \<open>m = 1\<close>, \<open>theta = phi = 0\<close>: \<open>k = sqrt (5 * 1! / (4 \<pi> * 3!))\<close>.
\<close>

theorem evaluate_formula_witness:
  "- int 2 \<le> 1 \<and> (1::int) \<le> int 2 \<and>
   evaluate reference_externals 2 1 0 0 = sqrt 2 * sqrt (5 / (24 * pi))"
  using evaluate_formula [of 2 1 reference_externals 0 0]
  by (simp add: reference_externals_def fact_numeral)

section \<open>Coefficient vectors: the zero test\<close>



section \<open>Projection and coupling: what a launch leaves in the output\<close>

text \<open>
  C5, as amended: with the output matrix zero-initialized and
  \<open>vector_count * n \<le> 2\<^sup>3\<^sup>2\<close>, so that every offset
  \<open>direction_index + vector_count * coefficient_index\<close> fits an \<^verbatim>\<open>unsigned int\<close>, a launch
  of \<^verbatim>\<open>calculate_matrix\<close> on a \<open>vector_count \<times> n\<close> grid leaves, for every direction index
  below \<open>vector_count\<close> and every coefficient index below \<open>n\<close>,
  \<^verbatim>\<open>evaluate(coefficient_index, theta, phi)\<close> of that direction at
  \<open>direction_index + vector_count * coefficient_index\<close>.
\<close>

theorem calculate_matrix_entries:
  assumes "covers_2d vector_count n ws" and "vector_count * n \<le> 2 ^ 32"
  shows "\<forall>direction_index < vector_count. \<forall>index < n.
           launch (calculate_matrix ext vector_count n vectors 0) ws
                  (replicate (vector_count * n) 0) ! (direction_index + vector_count * index) =
             evaluate_index ext index (f_y (vectors ! direction_index))
                                      (f_z (vectors ! direction_index))"
proof (intro allI impI)
  fix d ci
  assume d: "d < vector_count" and ci: "ci < n"
  then have len: "d + vector_count * ci < length (replicate (vector_count * n) (0::real))"
    by (simp add: offset_less)
  show "launch (calculate_matrix ext vector_count n vectors 0) ws
          (replicate (vector_count * n) 0) ! (d + vector_count * ci) =
        evaluate_index ext ci (f_y (vectors ! d)) (f_z (vectors ! d))"
    using calculate_matrix_launch [OF assms(1) d ci assms(2) len] d ci
    by (simp add: offset_less)
qed

text \<open>
  Witness for C5: two directions, four coefficients, the entry of direction 1 and
  coefficient 3.
\<close>

theorem calculate_matrix_entries_witness:
  "covers_2d 2 4 (threads (1, 1, 1) (2, 4, 1)) \<and> (2::nat) * 4 \<le> 2 ^ 32 \<and>
   launch (calculate_matrix reference_externals 2 4
             [\<lparr>f_x = 0, f_y = 0, f_z = 0\<rparr>, \<lparr>f_x = 1, f_y = 2, f_z = 3\<rparr>] 0)
          (threads (1, 1, 1) (2, 4, 1)) (replicate (2 * 4) 0) ! (1 + 2 * 3)
     = evaluate_index reference_externals 3 2 3"
proof -
  have c: "covers_2d 2 4 (threads (1, 1, 1) (2, 4, 1))" by (rule covers_2d_threads) simp_all
  have b: "(2::nat) * 4 \<le> 2 ^ 32" by simp
  have d: "(1::nat) < 2" and i: "(3::nat) < 4" by simp_all
  from calculate_matrix_entries [where ext = reference_externals
        and vectors = "[\<lparr>f_x = 0, f_y = 0, f_z = 0\<rparr>, \<lparr>f_x = 1, f_y = 2, f_z = 3\<rparr>]",
      OF c b, THEN spec, THEN mp, OF d, THEN spec, THEN mp, OF i]
  have "launch (calculate_matrix reference_externals 2 4
             [\<lparr>f_x = 0, f_y = 0, f_z = 0\<rparr>, \<lparr>f_x = 1, f_y = 2, f_z = 3\<rparr>] 0)
          (threads (1, 1, 1) (2, 4, 1)) (replicate (2 * 4) 0) ! (1 + 2 * 3)
     = evaluate_index reference_externals 3 2 3"
    by simp
  with c b show ?thesis by (intro conjI)
qed

text \<open>
  C5 as stated, for every \<open>vector_count\<close> and every number of coefficients, fails: the
  offset \<open>vector_index + vector_count * coefficient_index\<close> is an \<^verbatim>\<open>unsigned int\<close>. With
  \<open>2\<^sup>3\<^sup>1\<close> directions and \<open>3\<close> coefficients the thread of direction \<open>0\<close> and coefficient
  \<open>2\<close> computes \<open>2\<^sup>3\<^sup>2\<close>, which is \<open>0\<close>, and adds into the entry of direction \<open>0\<close> and
  coefficient \<open>0\<close>. On a covering grid of \<open>2\<^sup>2\<^sup>7\<close> by \<open>1\<close> blocks that entry ends as the sum
  of both values, not as \<^verbatim>\<open>evaluate(0, theta, phi)\<close>.
\<close>

theorem calculate_matrix_wraps_counterexample:
  "launch (calculate_matrix reference_externals 2147483648 3
             (replicate 2147483648 \<lparr>f_x = 0, f_y = 0, f_z = 0\<rparr>) 0)
          (threads (134217728, 1, 1) block_size_2d) (replicate (2147483648 * 3) 0)
     ! (0 + 2147483648 * 0)
     = evaluate_index reference_externals 0 0 0 + evaluate_index reference_externals 2 0 0 \<and>
   evaluate_index reference_externals 2 0 0 = sqrt (3 / (4 * pi)) \<and>
   evaluate_index reference_externals 0 0 0 + evaluate_index reference_externals 2 0 0
     \<noteq> evaluate_index reference_externals 0
          (f_y (replicate 2147483648 \<lparr>f_x = 0, f_y = 0, f_z = 0\<rparr> ! 0))
          (f_z (replicate 2147483648 \<lparr>f_x = 0, f_y = 0, f_z = 0\<rparr> ! 0))"
proof -
  let ?vectors = "replicate 2147483648 \<lparr>f_x = 0, f_y = 0, f_z = 0\<rparr>"
  let ?mem = "replicate (2147483648 * 3) (0::real)"
  let ?ws = "threads (134217728, 1, 1) block_size_2d"
  let ?val = "\<lambda>w::dim3. evaluate_index reference_externals (fst (snd w))
                (f_y (?vectors ! fst w)) (f_z (?vectors ! fst w))"
  let ?inr = "\<lambda>w::dim3. fst w < 2147483648 \<and> fst (snd w) < 3"
  let ?slot = "\<lambda>w::dim3. 0 + (fst w + 2147483648 * fst (snd w)) mod 2 ^ 32"
  have cov: "covers_2d 2147483648 3 ?ws"
    unfolding block_size_2d_def by (rule covers_2d_threads) simp_all
  then have dist: "distinct ?ws" by (simp add: covers_2d_def)
  have len: "0 < length ?mem" by simp
  have key: "((x + 2147483648 * y) mod 4294967296 = 0) = (x = 0 \<and> (y = 0 \<or> y = 2))"
    if "x < 2147483648" "y < 3" for x y :: nat
  proof -
    from that(2) consider "y = 0" | "y = 1" | "y = 2" by linarith
    then show ?thesis
    proof cases
      case 1
      with that(1) show ?thesis by simp
    next
      case 2
      with that(1) show ?thesis by simp
    next
      case 3
      have "(x + 2147483648 * 2) mod 4294967296 = x mod 4294967296" by simp
      with that(1) 3 show ?thesis by simp
    qed
  qed
  have key': "(4294967296 dvd x + 2147483648 * y) = (x = 0 \<and> (y = 0 \<or> y = 2))"
    if "x < 2147483648" "y < 3" for x y :: nat
    unfolding dvd_eq_mod_eq_0 using that by (rule key)
  have set: "{w \<in> set ?ws. ?inr w \<and> ?slot w = 0} = {(0, 0, 0), (0, 2, 0)}"
  proof -
    have "{w \<in> set ?ws. ?inr w \<and> ?slot w = 0}
            = {w \<in> (\<lambda>(x, y). (x, y, 0)) ` ({..<2147483648} \<times> {..<3}). ?slot w = 0}"
      using covers_2d_inrange [OF cov, of "\<lambda>w. ?slot w = 0"] by simp
    also have "\<dots> = {(0, 0, 0), (0, 2, 0)}"
      by (auto simp: key')
    finally show ?thesis .
  qed
  have "launch (calculate_matrix reference_externals 2147483648 3 ?vectors 0) ?ws ?mem ! 0 =
          ?mem ! 0 + sum ?val {w \<in> set ?ws. ?inr w \<and> ?slot w = 0}"
    by (rule launch_atomicAdd [OF calculate_matrix_step dist len])
  also have "\<dots> = evaluate_index reference_externals 0 0 0 +
                    evaluate_index reference_externals 2 0 0"
    unfolding set by simp
  finally have slot0:
    "launch (calculate_matrix reference_externals 2147483648 3 ?vectors 0) ?ws ?mem
       ! (0 + 2147483648 * 0)
     = evaluate_index reference_externals 0 0 0 + evaluate_index reference_externals 2 0 0"
    by simp
  have e2: "evaluate_index reference_externals 2 0 0 = sqrt (3 / (4 * pi))"
    by (rule evaluate_reference_2)
  have "sqrt (3 / (4 * pi)) \<noteq> 0" by simp
  then have ne: "evaluate_index reference_externals 0 0 0 +
                   evaluate_index reference_externals 2 0 0
                 \<noteq> evaluate_index reference_externals 0 (f_y (?vectors ! 0)) (f_z (?vectors ! 0))"
    unfolding evaluate_reference_0 evaluate_reference_2 by simp
  from slot0 e2 ne show ?thesis by (intro conjI)
qed

text \<open>
  C3: with \<open>out\<close> zero-initialized, a launch of the single-triple \<^verbatim>\<open>product\<close> on an
  \<open>n \<times> n \<times> n\<close> grid leaves in \<open>out[out_index]\<close>, for every \<open>out_index < n\<close>, the sum over all
  pairs \<open>(lhs_index, rhs_index)\<close> below \<open>n\<close> of
  \<open>coupling * lhs[lhs_index] * rhs[rhs_index]\<close>, where each index is decoded to
  \<open>(l, m)\<close> by \<^verbatim>\<open>coefficient_lm\<close> and the coupling is
  \<open>sqrt ((2 l\<^sub>l\<^sub>h\<^sub>s + 1) (2 l\<^sub>r\<^sub>h\<^sub>s + 1) / (4 \<pi> (2 l\<^sub>o\<^sub>u\<^sub>t + 1))) * cg1 * cg2\<close> with
  \<open>cg1 = CG (l\<^sub>l\<^sub>h\<^sub>s, l\<^sub>r\<^sub>h\<^sub>s, l\<^sub>o\<^sub>u\<^sub>t; 0, 0, 0)\<close> and
  \<open>cg2 = CG (l\<^sub>l\<^sub>h\<^sub>s, l\<^sub>r\<^sub>h\<^sub>s, l\<^sub>o\<^sub>u\<^sub>t; m\<^sub>l\<^sub>h\<^sub>s, m\<^sub>r\<^sub>h\<^sub>s, m\<^sub>o\<^sub>u\<^sub>t)\<close>, \<open>CG\<close> being the external
  Clebsch-Gordan function. The atomic accumulation is the sum over the in-range threads of
  the launch, in whichever order they run.
\<close>

theorem product_sums_couplings:
  assumes "covers_3d n n n ws"
  shows "\<forall>out_index < n.
           launch (product ext n lhs rhs 0) ws (replicate n 0) ! out_index =
             (\<Sum>lhs_index<n. \<Sum>rhs_index<n.
                sqrt (of_int ((2 * fst (coefficient_lm lhs_index) + 1) *
                              (2 * fst (coefficient_lm rhs_index) + 1)) /
                      (4 * pi * of_int (2 * fst (coefficient_lm out_index) + 1))) *
                clebsch_gordan ext (fst (coefficient_lm lhs_index)) (fst (coefficient_lm rhs_index))
                  (fst (coefficient_lm out_index)) 0 0 0 *
                clebsch_gordan ext (fst (coefficient_lm lhs_index)) (fst (coefficient_lm rhs_index))
                  (fst (coefficient_lm out_index)) (snd (coefficient_lm lhs_index))
                  (snd (coefficient_lm rhs_index)) (snd (coefficient_lm out_index)) *
                lhs ! lhs_index * rhs ! rhs_index)"
  using product_launch [OF assms, of _ "replicate n 0"] by simp

text \<open>
  Witness for C3: two coefficients \<open>[1, 2]\<close> and \<open>[3, 4]\<close>, the entry \<open>out[1]\<close>, with
  Clebsch-Gordan coefficients \<open>1\<close>. The indices \<open>0\<close> and \<open>1\<close> have the degrees \<open>0\<close> and \<open>1\<close>,
  so the four weights are \<open>sqrt (1 / (12 \<pi>))\<close>, \<open>sqrt (3 / (12 \<pi>))\<close> twice and
  \<open>sqrt (9 / (12 \<pi>))\<close>.
\<close>

theorem product_sums_couplings_witness:
  "covers_3d 2 2 2 (threads (1, 1, 1) (2, 2, 2)) \<and>
   launch (product reference_externals 2 [1, 2] [3, 4] 0) (threads (1, 1, 1) (2, 2, 2))
          (replicate 2 0) ! 1
     = sqrt (1 / (12 * pi)) * 1 * 3 + sqrt (3 / (12 * pi)) * 1 * 4 +
       (sqrt (3 / (12 * pi)) * 2 * 3 + sqrt (9 / (12 * pi)) * 2 * 4)"
proof -
  have c: "covers_3d 2 2 2 (threads (1, 1, 1) (2, 2, 2))" by (rule covers_3d_threads) simp_all
  have i: "(1::nat) < 2" by simp
  have two: "{..<2::nat} = {0, 1}" by auto
  from product_sums_couplings [where ext = reference_externals and lhs = "[1, 2]"
        and rhs = "[3, 4]", OF c, THEN spec, THEN mp, OF i]
  have "launch (product reference_externals 2 [1, 2] [3, 4] 0) (threads (1, 1, 1) (2, 2, 2))
          (replicate 2 0) ! 1
     = sqrt (1 / (12 * pi)) * 1 * 3 + sqrt (3 / (12 * pi)) * 1 * 4 +
       (sqrt (3 / (12 * pi)) * 2 * 3 + sqrt (9 / (12 * pi)) * 2 * 4)"
    unfolding two by (simp add: coefficient_lm_0 coefficient_lm_1 reference_externals_def)
  with c show ?thesis by (rule conjI)
qed

section \<open>Sampling: the vertex layout and the index buffer\<close>

text \<open>
  C10, as amended: for tessellations \<open>(X, Y)\<close> with \<open>6 * X * Y \<le> 2\<^sup>3\<^sup>2\<close>, so that neither
  \<^verbatim>\<open>point_offset\<close> nor \<^verbatim>\<open>index_offset + 5\<close> wraps, the layout of \<^verbatim>\<open>sample\<close> and
  \<^verbatim>\<open>sample_sum\<close> is the map \<open>(longitude, latitude) \<mapsto> latitude + longitude * Y\<close> on the grid
  and a bijection from \<open>{0..X-1} \<times> {0..Y-1}\<close> onto \<open>[0, X * Y)\<close>; every point slot is the
  offset of exactly one grid cell and every slot of the index buffer lies in the six-entry
  group of exactly one cell. A thread of \<^verbatim>\<open>sample\<close> outside the grid writes nothing,
  and the thread of the cell \<open>(longitude, latitude)\<close> overwrites the point slot
  \<open>latitude + longitude * Y\<close> with its vertex and the six index slots from
  \<open>6 * (latitude + longitude * Y)\<close> on with its two triangles, and nothing else. So each
  point slot and each group is written by exactly one in-range work item.
\<close>

theorem point_offset_bijection:
  assumes bound: "6 * tx * ty \<le> 2 ^ 32"
  shows
  "bij_betw (\<lambda>(longitude, latitude). point_offset (tx, ty) longitude latitude)
            ({..<tx} \<times> {..<ty}) {..<tx * ty} \<and>
   (\<forall>longitude < tx. \<forall>latitude < ty.
        point_offset (tx, ty) longitude latitude = latitude + longitude * ty) \<and>
   (\<forall>p < tx * ty. \<exists>!w. fst w < tx \<and> snd w < ty \<and> point_offset (tx, ty) (fst w) (snd w) = p) \<and>
   (\<forall>s < 6 * (tx * ty). \<exists>!w. fst w < tx \<and> snd w < ty \<and>
        6 * point_offset (tx, ty) (fst w) (snd w) \<le> s \<and>
        s < 6 * point_offset (tx, ty) (fst w) (snd w) + 6) \<and>
   (\<forall>longitude latitude z points indices.
        \<not> (longitude < tx \<and> latitude < ty) \<longrightarrow>
        sample ext l m (tx, ty) 0 0 (longitude, latitude, z) (points, indices)
          = (points, indices)) \<and>
   (\<forall>longitude < tx. \<forall>latitude < ty. \<forall>z points indices.
        sample ext l m (tx, ty) 0 0 (longitude, latitude, z) (points, indices) =
          (points[latitude + longitude * ty :=
             \<lparr>f_x = evaluate ext l m (grid_theta (tx, ty) longitude) (grid_phi (tx, ty) latitude),
              f_y = grid_theta (tx, ty) longitude, f_z = grid_phi (tx, ty) latitude\<rparr>],
           indices
             [6 * (latitude + longitude * ty) := longitude * ty + latitude,
              6 * (latitude + longitude * ty) + 1 := longitude * ty + (latitude + 1) mod ty,
              6 * (latitude + longitude * ty) + 2 :=
                (longitude + 1) mod tx * ty + (latitude + 1) mod ty,
              6 * (latitude + longitude * ty) + 3 := longitude * ty + latitude,
              6 * (latitude + longitude * ty) + 4 :=
                (longitude + 1) mod tx * ty + (latitude + 1) mod ty,
              6 * (latitude + longitude * ty) + 5 := (longitude + 1) mod tx * ty + latitude]))"
proof (intro conjI)
  have b6: "6 * (tx * ty) \<le> 2 ^ 32" using bound by (simp add: mult.assoc)
  then have b: "tx * ty \<le> 2 ^ 32" by simp
  show "bij_betw (\<lambda>(longitude, latitude). point_offset (tx, ty) longitude latitude)
            ({..<tx} \<times> {..<ty}) {..<tx * ty}"
  proof (rule bij_betwI')
    fix w w' :: "nat \<times> nat"
    assume "w \<in> {..<tx} \<times> {..<ty}" "w' \<in> {..<tx} \<times> {..<ty}"
    then show "((case w of (longitude, latitude) \<Rightarrow> point_offset (tx, ty) longitude latitude) =
               (case w' of (longitude, latitude) \<Rightarrow> point_offset (tx, ty) longitude latitude))
               = (w = w')"
      by (auto dest: point_offset_inj [OF _ _ _ _ b])
  next
    fix w :: "nat \<times> nat"
    assume "w \<in> {..<tx} \<times> {..<ty}"
    then show "(case w of (longitude, latitude) \<Rightarrow> point_offset (tx, ty) longitude latitude)
                 \<in> {..<tx * ty}"
      by (auto intro: point_offset_less [OF _ _ b])
  next
    fix p assume "p \<in> {..<tx * ty}"
    then have p: "p < tx * ty" by simp
    then have ty: "0 < ty" by (cases ty) simp_all
    have "p div ty < tx" using p ty by (simp add: less_mult_imp_div_less mult.commute)
    moreover have "p mod ty < ty" using ty by simp
    ultimately have "(p div ty, p mod ty) \<in> {..<tx} \<times> {..<ty}" by simp
    moreover have "p = (case (p div ty, p mod ty) of
        (longitude, latitude) \<Rightarrow> point_offset (tx, ty) longitude latitude)"
      using point_offset_encode [OF ty p b] by simp
    ultimately show "\<exists>w \<in> {..<tx} \<times> {..<ty}.
        p = (case w of (longitude, latitude) \<Rightarrow> point_offset (tx, ty) longitude latitude)"
      by blast
  qed
  show "\<forall>longitude < tx. \<forall>latitude < ty.
        point_offset (tx, ty) longitude latitude = latitude + longitude * ty"
    by (intro allI impI) (rule point_offset_nowrap [OF _ _ b])
  show "\<forall>p < tx * ty. \<exists>!w. fst w < tx \<and> snd w < ty \<and>
      point_offset (tx, ty) (fst w) (snd w) = p"
    by (intro allI impI) (rule point_offset_unique_cell [OF _ b])
  show "\<forall>s < 6 * (tx * ty). \<exists>!w. fst w < tx \<and> snd w < ty \<and>
        6 * point_offset (tx, ty) (fst w) (snd w) \<le> s \<and>
        s < 6 * point_offset (tx, ty) (fst w) (snd w) + 6"
    by (intro allI impI) (rule index_slot_unique_cell [OF _ b])
  show "\<forall>longitude latitude z points indices.
        \<not> (longitude < tx \<and> latitude < ty) \<longrightarrow>
        sample ext l m (tx, ty) 0 0 (longitude, latitude, z) (points, indices)
          = (points, indices)"
    by (intro allI impI) (rule sample_thread_idle)
  show "\<forall>longitude < tx. \<forall>latitude < ty. \<forall>z points indices.
        sample ext l m (tx, ty) 0 0 (longitude, latitude, z) (points, indices) =
          (points[latitude + longitude * ty :=
             \<lparr>f_x = evaluate ext l m (grid_theta (tx, ty) longitude) (grid_phi (tx, ty) latitude),
              f_y = grid_theta (tx, ty) longitude, f_z = grid_phi (tx, ty) latitude\<rparr>],
           indices
             [6 * (latitude + longitude * ty) := longitude * ty + latitude,
              6 * (latitude + longitude * ty) + 1 := longitude * ty + (latitude + 1) mod ty,
              6 * (latitude + longitude * ty) + 2 :=
                (longitude + 1) mod tx * ty + (latitude + 1) mod ty,
              6 * (latitude + longitude * ty) + 3 := longitude * ty + latitude,
              6 * (latitude + longitude * ty) + 4 :=
                (longitude + 1) mod tx * ty + (latitude + 1) mod ty,
              6 * (latitude + longitude * ty) + 5 := (longitude + 1) mod tx * ty + latitude])"
    by (intro allI impI) (rule sample_thread_effect [OF _ _ b6])
qed

text \<open>
  Witness for C10 at tessellations \<open>(4, 3)\<close>: the point slot \<open>7\<close> and the index slot \<open>25\<close>
  have one cell each; the thread of the cell \<open>(1, 1)\<close>, whose offset is \<open>4\<close>, writes the
  vertex \<open>(sqrt (1 / (4 \<pi>)), \<pi> / 2, \<pi> / 2)\<close> into the point slot \<open>4\<close> and
  \<open>4, 5, 8, 4, 8, 7\<close> into the index slots \<open>24\<close> to \<open>29\<close>; the thread \<open>(4, 0)\<close> writes
  nothing.
\<close>

theorem point_offset_bijection_witness:
  "(6::nat) * 4 * 3 \<le> 2 ^ 32 \<and>
   bij_betw (\<lambda>(longitude, latitude). point_offset (4, 3) longitude latitude)
            ({..<4} \<times> {..<3}) {..<12} \<and>
   point_offset (4, 3) 1 1 = 1 + 1 * 3 \<and>
   (\<exists>!w. fst w < 4 \<and> snd w < 3 \<and> point_offset (4, 3) (fst w) (snd w) = 7) \<and>
   (\<exists>!w. fst w < 4 \<and> snd w < 3 \<and> 6 * point_offset (4, 3) (fst w) (snd w) \<le> 25 \<and>
         25 < 6 * point_offset (4, 3) (fst w) (snd w) + 6) \<and>
   sample reference_externals 0 0 (4, 3) 0 0 (1, 1, 0)
     (replicate 12 \<lparr>f_x = 5, f_y = 0, f_z = 0\<rparr>, replicate 72 0)
     = ((replicate 12 \<lparr>f_x = 5, f_y = 0, f_z = 0\<rparr>)
          [4 := \<lparr>f_x = sqrt (1 / (4 * pi)), f_y = pi / 2, f_z = pi / 2\<rparr>],
        (replicate 72 0)[24 := 4, 25 := 5, 26 := 8, 27 := 4, 28 := 8, 29 := 7]) \<and>
   sample reference_externals 0 0 (4, 3) 0 0 (4, 0, 0)
     (replicate 12 \<lparr>f_x = 5, f_y = 0, f_z = 0\<rparr>, replicate 72 0)
     = (replicate 12 \<lparr>f_x = 5, f_y = 0, f_z = 0\<rparr>, replicate 72 0)"
proof -
  have h: "(6::nat) * 4 * 3 \<le> 2 ^ 32" by simp
  note t = point_offset_bijection [OF h, of reference_externals 0 0]
  from t have "bij_betw (\<lambda>(longitude, latitude). point_offset (4, 3) longitude latitude)
            ({..<4} \<times> {..<3}) {..<4 * 3}"
    by (rule conjunct1)
  then have b: "bij_betw (\<lambda>(longitude, latitude). point_offset (4, 3) longitude latitude)
            ({..<4} \<times> {..<3}) {..<12}"
    by simp
  from t have "\<forall>p < 4 * 3. \<exists>!w. fst w < 4 \<and> snd w < 3 \<and>
      point_offset (4, 3) (fst w) (snd w) = (p::nat)"
    by (rule conjunct1 [OF conjunct2 [OF conjunct2]])
  then have "(7::nat) < 4 * 3 \<longrightarrow> (\<exists>!w. fst w < 4 \<and> snd w < 3 \<and>
      point_offset (4, 3) (fst w) (snd w) = (7::nat))"
    by (rule spec)
  then have u: "\<exists>!w. fst w < 4 \<and> snd w < 3 \<and> point_offset (4, 3) (fst w) (snd w) = (7::nat)"
    by simp
  have lon: "(1::nat) < 4" and lat: "(1::nat) < 3" by simp_all
  have p: "point_offset (4, 3) 1 1 = 1 + 1 * 3"
    by (rule t [THEN conjunct2, THEN conjunct1, rule_format, OF lon lat])
  have s25: "(25::nat) < 6 * (4 * 3)" by simp
  have g: "\<exists>!w. fst w < 4 \<and> snd w < 3 \<and> 6 * point_offset (4, 3) (fst w) (snd w) \<le> 25 \<and>
         25 < 6 * point_offset (4, 3) (fst w) (snd w) + 6"
    by (rule t [THEN conjunct2, THEN conjunct2, THEN conjunct2, THEN conjunct1, rule_format,
          OF s25])
  have "sample reference_externals 0 0 (4, 3) 0 0 (1, 1, 0)
          (replicate 12 \<lparr>f_x = 5, f_y = 0, f_z = 0\<rparr>, replicate 72 0)
     = ((replicate 12 \<lparr>f_x = 5, f_y = 0, f_z = 0\<rparr>)
          [1 + 1 * 3 :=
             \<lparr>f_x = evaluate reference_externals 0 0 (grid_theta (4, 3) 1) (grid_phi (4, 3) 1),
              f_y = grid_theta (4, 3) 1, f_z = grid_phi (4, 3) 1\<rparr>],
        (replicate 72 0)
          [6 * (1 + 1 * 3) := 1 * 3 + 1,
           6 * (1 + 1 * 3) + 1 := 1 * 3 + (1 + 1) mod 3,
           6 * (1 + 1 * 3) + 2 := (1 + 1) mod 4 * 3 + (1 + 1) mod 3,
           6 * (1 + 1 * 3) + 3 := 1 * 3 + 1,
           6 * (1 + 1 * 3) + 4 := (1 + 1) mod 4 * 3 + (1 + 1) mod 3,
           6 * (1 + 1 * 3) + 5 := (1 + 1) mod 4 * 3 + 1])"
    by (rule t [THEN conjunct2, THEN conjunct2, THEN conjunct2, THEN conjunct2, THEN conjunct2,
          rule_format, OF lon lat])
  then have w: "sample reference_externals 0 0 (4, 3) 0 0 (1, 1, 0)
          (replicate 12 \<lparr>f_x = 5, f_y = 0, f_z = 0\<rparr>, replicate 72 0)
     = ((replicate 12 \<lparr>f_x = 5, f_y = 0, f_z = 0\<rparr>)
          [4 := \<lparr>f_x = sqrt (1 / (4 * pi)), f_y = pi / 2, f_z = pi / 2\<rparr>],
        (replicate 72 0)[24 := 4, 25 := 5, 26 := 8, 27 := 4, 28 := 8, 29 := 7])"
    by (simp add: evaluate_def reference_externals_def grid_theta_def grid_phi_def)
  have out: "\<not> ((4::nat) < 4 \<and> (0::nat) < 3)" by simp
  have i: "sample reference_externals 0 0 (4, 3) 0 0 (4, 0, 0)
          (replicate 12 \<lparr>f_x = 5, f_y = 0, f_z = 0\<rparr>, replicate 72 0)
     = (replicate 12 \<lparr>f_x = 5, f_y = 0, f_z = 0\<rparr>, replicate 72 0)"
    by (rule t [THEN conjunct2, THEN conjunct2, THEN conjunct2, THEN conjunct2, THEN conjunct1,
          rule_format, OF out])
  from h b p u g w i show ?thesis by (intro conjI)
qed

text \<open>
  C10 as stated, for every \<open>(X, Y)\<close>, fails: \<^verbatim>\<open>index_offset = 6 * point_offset\<close> is an
  \<^verbatim>\<open>unsigned int\<close>. At tessellations \<open>(65536, 16384)\<close> the cell \<open>(43690, 10923)\<close> has the
  point offset \<open>715827883\<close> and the index offset \<open>4294967298 mod 2\<^sup>3\<^sup>2 = 2\<close>. Its thread
  stores its first entry in the index slot \<open>2\<close>, which is the third slot of the group of the
  cell \<open>(0, 0)\<close>, whose thread stores \<open>16385\<close> there: one slot, two in-range work items.
\<close>

theorem sample_index_group_counterexample:
  "(43690::nat) < 65536 \<and> (10923::nat) < 16384 \<and>
   point_offset (65536, 16384) 43690 10923 = 715827883 \<and>
   (6 * point_offset (65536, 16384) 43690 10923) mod 2 ^ 32 = 2 \<and>
   snd (sample reference_externals 0 0 (65536, 16384) 0 0 (43690, 10923, 0)
          (replicate (65536 * 16384) \<lparr>f_x = 0, f_y = 0, f_z = 0\<rparr>,
           replicate (6 * 65536 * 16384) 0)) ! 2 = 715827883 \<and>
   snd (sample reference_externals 0 0 (65536, 16384) 0 0 (0, 0, 0)
          (replicate (65536 * 16384) \<lparr>f_x = 0, f_y = 0, f_z = 0\<rparr>,
           replicate (6 * 65536 * 16384) 0)) ! 2 = 16385"
  by (simp add: point_offset_def sample_def store_indices_def cell_indices_def Let_def
        nth_list_update)

text \<open>
  C6, as amended: for tessellations \<open>(X, Y)\<close> with \<open>X \<ge> 1\<close>, \<open>Y \<ge> 2\<close> and
  \<open>6 * X * Y \<le> 2\<^sup>3\<^sup>2\<close> (no offset wraps), every one of the \<open>6 * X * Y\<close> index entries that a
  launch of \<^verbatim>\<open>sample\<close> on an \<open>X \<times> Y\<close> grid leaves lies in \<open>[0, X * Y)\<close>, and the two
  triangles of the cell \<open>(longitude, latitude)\<close>, stored from
  \<open>6 * (latitude + longitude * Y)\<close> on, are
  \<open>(longitude, latitude), (longitude, latitude+1), (longitude+1, latitude+1)\<close> and
  \<open>(longitude, latitude), (longitude+1, latitude+1), (longitude+1, latitude)\<close>, with
  \<open>longitude+1\<close> taken modulo \<open>X\<close> and \<open>latitude+1\<close> modulo \<open>Y\<close>: they share the diagonal
  edge \<open>(longitude, latitude)-(longitude+1, latitude+1)\<close>.
\<close>

theorem sample_triangle_indices:
  assumes "1 \<le> tx" and "2 \<le> ty" and bound: "6 * tx * ty \<le> 2 ^ 32"
    and cov: "covers_2d tx ty ws" and len: "length indices = 6 * tx * ty"
  shows "(\<forall>s < 6 * tx * ty.
            snd (launch (sample ext l m (tx, ty) 0 0) ws (points, indices)) ! s < tx * ty) \<and>
         (\<forall>longitude < tx. \<forall>latitude < ty.
            map (\<lambda>k. snd (launch (sample ext l m (tx, ty) 0 0) ws (points, indices))
                        ! (6 * (latitude + longitude * ty) + k)) [0, 1, 2]
              = [longitude * ty + latitude,
                 longitude * ty + (latitude + 1) mod ty,
                 (longitude + 1) mod tx * ty + (latitude + 1) mod ty] \<and>
            map (\<lambda>k. snd (launch (sample ext l m (tx, ty) 0 0) ws (points, indices))
                        ! (6 * (latitude + longitude * ty) + k)) [3, 4, 5]
              = [longitude * ty + latitude,
                 (longitude + 1) mod tx * ty + (latitude + 1) mod ty,
                 (longitude + 1) mod tx * ty + latitude])"
proof -
  let ?r = "snd (launch (sample ext l m (tx, ty) 0 0) ws (points, indices))"
  have ty: "0 < ty" using assms(2) by simp
  have b6: "6 * (tx * ty) \<le> 2 ^ 32" using bound by (simp add: mult.assoc)
  then have b: "tx * ty \<le> 2 ^ 32" by simp
  have written: "\<exists>w \<in> set ws. fst w < tx \<and> fst (snd w) < ty \<and>
      point_offset (tx, ty) (fst w) (fst (snd w)) = p" if "p < tx * ty" for p
  proof -
    have "p div ty < tx" using that ty by (simp add: less_mult_imp_div_less mult.commute)
    moreover have "p mod ty < ty" using ty by simp
    ultimately have "(p div ty, p mod ty, 0) \<in> set ws" using cov by (simp add: covers_2d_def)
    then show ?thesis
      using \<open>p div ty < tx\<close> \<open>p mod ty < ty\<close> point_offset_encode [OF ty that b] by force
  qed
  have entry: "?r ! s = cell_indices 0 (tx, ty) (s div 6 div ty) (s div 6 mod ty) ! (s mod 6)"
    if "s < 6 * tx * ty" for s
  proof -
    have "s div 6 < tx * ty" using that by (intro div_6_less) (simp add: mult.assoc)
    from written [OF this] show ?thesis
      using sample_launch_indices [of s indices tx ty ext l m ws points, OF _ b6] that len
      by simp
  qed
  have range: "\<forall>s < 6 * tx * ty. ?r ! s < tx * ty"
  proof (intro allI impI)
    fix s assume s: "s < 6 * tx * ty"
    then have p: "s div 6 < tx * ty" by (intro div_6_less) (simp add: mult.assoc)
    then have lo: "s div 6 div ty < tx"
      using ty by (simp add: less_mult_imp_div_less mult.commute)
    have la: "s div 6 mod ty < ty" using ty by simp
    have k: "s mod 6 < 6" by simp
    show "?r ! s < tx * ty"
      unfolding entry [OF s] using lo la k b by (rule cell_indices_less)
  qed
  have cells: "?r ! (6 * (latitude + longitude * ty) + k)
                 = cell_indices 0 (tx, ty) longitude latitude ! k"
    if "longitude < tx" "latitude < ty" "k < 6" for longitude latitude k
  proof -
    let ?p = "latitude + longitude * ty"
    have "?p < tx * ty"
      using point_offset_less [OF that(1,2) b] unfolding point_offset_nowrap [OF that(1,2) b] .
    then have "6 * ?p + k < 6 * tx * ty" using that(3) by simp
    then have e: "?r ! (6 * ?p + k) =
        cell_indices 0 (tx, ty) ((6 * ?p + k) div 6 div ty) ((6 * ?p + k) div 6 mod ty)
          ! ((6 * ?p + k) mod 6)"
      by (rule entry)
    have g: "(6 * q + k) div 6 = q" "(6 * q + k) mod 6 = k" for q :: nat
      using that(3) by simp_all
    have dm: "?p div ty = longitude" "?p mod ty = latitude" using that(2) by simp_all
    show ?thesis unfolding e g dm by (rule refl)
  qed
  have triangles:
    "map (\<lambda>k. ?r ! (6 * (latitude + longitude * ty) + k)) [0, 1, 2]
       = [longitude * ty + latitude,
          longitude * ty + (latitude + 1) mod ty,
          (longitude + 1) mod tx * ty + (latitude + 1) mod ty] \<and>
     map (\<lambda>k. ?r ! (6 * (latitude + longitude * ty) + k)) [3, 4, 5]
       = [longitude * ty + latitude,
          (longitude + 1) mod tx * ty + (latitude + 1) mod ty,
          (longitude + 1) mod tx * ty + latitude]"
    if "longitude < tx" "latitude < ty" for longitude latitude
    using cells [OF that, of 0] cells [OF that, of 1] cells [OF that, of 2]
      cells [OF that, of 3] cells [OF that, of 4] cells [OF that, of 5]
    unfolding cell_indices_nowrap [OF that b]
    by simp
  show ?thesis
    using range triangles by blast
qed

text \<open>
  Witness for C6 at tessellations \<open>(2, 2)\<close>: the second triangle of the cell \<open>(0, 0)\<close>.
\<close>

theorem sample_triangle_indices_witness:
  "(1::nat) \<le> 2 \<and> (2::nat) \<le> 2 \<and> (6::nat) * 2 * 2 \<le> 2 ^ 32 \<and>
   covers_2d 2 2 (threads (1, 1, 1) (2, 2, 1)) \<and>
   snd (launch (sample reference_externals 0 0 (2, 2) 0 0) (threads (1, 1, 1) (2, 2, 1))
          (replicate 4 \<lparr>f_x = 0, f_y = 0, f_z = 0\<rparr>, replicate 24 9)) ! 23 < 2 * 2 \<and>
   map (\<lambda>k. snd (launch (sample reference_externals 0 0 (2, 2) 0 0) (threads (1, 1, 1) (2, 2, 1))
                    (replicate 4 \<lparr>f_x = 0, f_y = 0, f_z = 0\<rparr>, replicate 24 9)) ! k) [3, 4, 5]
     = [0, 3, 2]"
proof -
  have c: "covers_2d 2 2 (threads (1, 1, 1) (2, 2, 1))" by (rule covers_2d_threads) simp_all
  have l: "length (replicate 24 (9::nat)) = 6 * 2 * 2" by simp
  have x: "(1::nat) \<le> 2" and y: "(2::nat) \<le> 2" and b: "(6::nat) * 2 * 2 \<le> 2 ^ 32"
    by simp_all
  note t = sample_triangle_indices [OF x y b c l, of reference_externals 0 0
      "replicate 4 \<lparr>f_x = 0, f_y = 0, f_z = 0\<rparr>"]
  from t have "\<forall>s < 6 * 2 * 2.
      snd (launch (sample reference_externals 0 0 (2, 2) 0 0) (threads (1, 1, 1) (2, 2, 1))
             (replicate 4 \<lparr>f_x = 0, f_y = 0, f_z = 0\<rparr>, replicate 24 9)) ! s < 2 * 2"
    by (rule conjunct1)
  then have "(23::nat) < 6 * 2 * 2 \<longrightarrow>
      snd (launch (sample reference_externals 0 0 (2, 2) 0 0) (threads (1, 1, 1) (2, 2, 1))
             (replicate 4 \<lparr>f_x = 0, f_y = 0, f_z = 0\<rparr>, replicate 24 9)) ! 23 < 2 * 2"
    by (rule spec)
  then have r: "snd (launch (sample reference_externals 0 0 (2, 2) 0 0)
      (threads (1, 1, 1) (2, 2, 1))
      (replicate 4 \<lparr>f_x = 0, f_y = 0, f_z = 0\<rparr>, replicate 24 9)) ! 23 < 2 * 2"
    by simp
  have z: "(0::nat) < 2" by simp
  from t [THEN conjunct2, rule_format, OF z z, THEN conjunct2]
  have "map (\<lambda>k. snd (launch (sample reference_externals 0 0 (2, 2) 0 0)
                              (threads (1, 1, 1) (2, 2, 1))
                    (replicate 4 \<lparr>f_x = 0, f_y = 0, f_z = 0\<rparr>, replicate 24 9))
                        ! (6 * (0 + 0 * 2) + k)) [3, 4, 5]
              = [0 * 2 + 0, (0 + 1) mod 2 * 2 + (0 + 1) mod 2, (0 + 1) mod 2 * 2 + 0]" .
  then have m: "map (\<lambda>k. snd (launch (sample reference_externals 0 0 (2, 2) 0 0)
                              (threads (1, 1, 1) (2, 2, 1))
                    (replicate 4 \<lparr>f_x = 0, f_y = 0, f_z = 0\<rparr>, replicate 24 9)) ! k) [3, 4, 5]
     = [0, 3, 2]"
    by simp
  from x y b c r m show ?thesis by blast
qed

text \<open>
  C6 as stated has the two triangles share the edge
  \<open>(longitude, latitude+1)-(longitude+1, latitude+1)\<close>. At tessellations \<open>(2, 2)\<close> the cell
  \<open>(0, 0)\<close> emits the triangles \<open>(0, 1, 3)\<close> and \<open>(0, 3, 2)\<close>; the vertex
  \<open>(longitude, latitude+1)\<close>, at offset \<open>1\<close>, is not in the second one. And C6 as stated,
  for every \<open>(X, Y)\<close>, has \<open>6 * X * Y\<close> entries emitted: at tessellations
  \<open>(65536, 16384)\<close> the thread of the cell \<open>(43690, 10923)\<close> stores its six entries from
  the index slot \<open>4294967298 mod 2\<^sup>3\<^sup>2 = 2\<close> on, over the entries of the cells \<open>(0, 0)\<close> and
  \<open>(0, 1)\<close>, and leaves the slot \<open>4294967298\<close> as it was.
\<close>

theorem sample_shared_edge_counterexample:
  "cell_indices 0 (2, 2) 0 0 = [0, 1, 3, 0, 3, 2] \<and>
   0 * 2 + (0 + 1) mod 2 \<notin> set (drop 3 (cell_indices 0 (2, 2) 0 0)) \<and>
   snd (sample reference_externals 0 0 (65536, 16384) 0 0 (43690, 10923, 0)
          (replicate (65536 * 16384) \<lparr>f_x = 0, f_y = 0, f_z = 0\<rparr>,
           replicate (6 * 65536 * 16384) 7)) ! 7 = 715844267 \<and>
   snd (sample reference_externals 0 0 (65536, 16384) 0 0 (43690, 10923, 0)
          (replicate (65536 * 16384) \<lparr>f_x = 0, f_y = 0, f_z = 0\<rparr>,
           replicate (6 * 65536 * 16384) 7)) ! (6 * (10923 + 43690 * 16384)) = 7"
  by (simp add: cell_indices_def sample_def store_indices_def point_offset_def Let_def
        nth_list_update)

text \<open>
  C7: for \<open>max_l = 1\<close> (four coefficients) and tessellations \<open>(4, 3)\<close>, \<^verbatim>\<open>sample_sum\<close> with
  the coefficients \<open>[1, 0, 0, 0]\<close> leaves at every vertex the same point record
  \<open>(value, theta, phi)\<close> as \<^verbatim>\<open>sample(0, 0, tessellations)\<close>, whatever the order of the
  threads and whatever the buffers held before.
\<close>

theorem sample_sum_dc_reproduces_sample:
  assumes "covers_2d 4 3 ws" and "covers_3d 4 3 (coefficient_count 1) ws'"
    and "length points = 12" and "length points' = 12"
  shows "\<forall>v < 12.
           fst (launch (sample_sum ext (coefficient_count 1) (4, 3) [1, 0, 0, 0] 0 0 0) ws'
                  (points', indices')) ! v =
           fst (launch (sample ext 0 0 (4, 3) 0 0) ws (points, indices)) ! v"
proof (intro allI impI)
  fix v :: nat
  assume v: "v < 12"
  define longitude where "longitude = v div 3"
  define latitude where "latitude = v mod 3"
  have lon: "longitude < 4" using v by (simp add: longitude_def)
  have lat: "latitude < 3" by (simp add: latitude_def)
  have b: "(4::nat) * 3 \<le> 2 ^ 32" by simp
  have po: "point_offset (4, 3) longitude latitude = v"
    using v by (simp add: point_offset_def longitude_def latitude_def)
  have cc: "coefficient_count 1 = 4" by (simp add: coefficient_count_def)
  have m2: "(longitude, latitude, 0) \<in> set ws"
    using assms(1) lon lat by (simp add: covers_2d_def)
  have c3: "covers_3d 4 3 4 ws'" using assms(2) unfolding cc .
  have m3: "(longitude, latitude, 0) \<in> set ws'"
    using c3 lon lat by (simp add: covers_3d_def)
  have dc: "\<forall>ci. 0 < ci \<and> ci < 4 \<longrightarrow> [1, 0, 0, 0::real] ! ci = 0"
    by (auto simp: nth_Cons')
  have n0: "(0::nat) < 4" by simp
  have l: "point_offset (4, 3) longitude latitude < length points"
    and l': "point_offset (4, 3) longitude latitude < length points'"
    using v assms(3,4) by (simp_all add: po)
  have "fst (launch (sample_sum ext 4 (4, 3) [1, 0, 0, 0] 0 0 0) ws' (points', indices'))
          ! point_offset (4, 3) longitude latitude
        = fst (launch (sample ext 0 0 (4, 3) 0 0) ws (points, indices))
          ! point_offset (4, 3) longitude latitude"
    unfolding sample_sum_points_dc [OF dc m3 lon lat n0 l' b]
      sample_launch_points [OF m2 lon lat l b]
    by (simp add: evaluate_index_0)
  then show "fst (launch (sample_sum ext (coefficient_count 1) (4, 3) [1, 0, 0, 0] 0 0 0) ws'
                  (points', indices')) ! v =
           fst (launch (sample ext 0 0 (4, 3) 0 0) ws (points, indices)) ! v"
    unfolding po cc .
qed

text \<open>
  Witness for C7: the vertex at offset \<open>7\<close>, from two different initial buffers.
\<close>

theorem sample_sum_dc_reproduces_sample_witness:
  "covers_2d 4 3 (threads (1, 1, 1) (4, 3, 1)) \<and>
   covers_3d 4 3 (coefficient_count 1) (threads (1, 1, 1) (4, 3, 4)) \<and>
   fst (launch (sample_sum reference_externals (coefficient_count 1) (4, 3) [1, 0, 0, 0] 0 0 0)
          (threads (1, 1, 1) (4, 3, 4))
          (replicate 12 \<lparr>f_x = 5, f_y = 0, f_z = 0\<rparr>, replicate 72 0)) ! 7 =
   fst (launch (sample reference_externals 0 0 (4, 3) 0 0) (threads (1, 1, 1) (4, 3, 1))
          (replicate 12 \<lparr>f_x = 0, f_y = 0, f_z = 0\<rparr>, replicate 72 0)) ! 7"
proof -
  have c2: "covers_2d 4 3 (threads (1, 1, 1) (4, 3, 1))"
    by (rule covers_2d_threads) simp_all
  have c3: "covers_3d 4 3 (coefficient_count 1) (threads (1, 1, 1) (4, 3, 4))"
    by (rule covers_3d_threads) (simp_all add: coefficient_count_def)
  have l: "length (replicate 12 \<lparr>f_x = 0, f_y = 0, f_z = 0\<rparr>) = 12"
    and l': "length (replicate 12 \<lparr>f_x = 5, f_y = 0, f_z = 0\<rparr>) = 12" by simp_all
  from sample_sum_dc_reproduces_sample [OF c2 c3 l l', of reference_externals "replicate 72 0"
      "replicate 72 0"] c2 c3
  show ?thesis by simp
qed

section \<open>Batched routines on a single instance\<close>

text \<open>
  With \<open>dimensions = (1, 1, 1)\<close> the slice offsets of the three batched routines are zero
  and \<^verbatim>\<open>sample_sums\<close> passes the base index through (\<open>calculate_matrices_unit\<close>,
  \<open>sample_sums_unit\<close>, \<open>product_volume_unit\<close>): each is one nested launch of its
  single-instance kernel, on a grid of \<^verbatim>\<open>ceil(float(n) / block_size)\<close> blocks per
  dimension. For counts up to \<open>2\<^sup>2\<^sup>4\<close> that grid covers the index space, and the two
  accumulating routines leave what their kernel leaves on any covering grid.
\<close>

lemma batched_covering_grid:
  assumes v: "vector_count \<le> 2 ^ 24" and n: "n \<le> 2 ^ 24"
    and outer: "distinct ws" "(0, 0, 0) \<in> set ws"
    and c2: "covers_2d vector_count n ws2" and c3: "covers_3d n n n ws3"
  shows "launch (calculate_matrices ext (1, 1, 1) vector_count n vectors output_matrices) ws mem
           = launch (calculate_matrix ext vector_count n vectors output_matrices) ws2 mem"
    and "launch (product_volume ext (1, 1, 1) n lhs rhs out) ws mem'
           = launch (product ext n lhs rhs out) ws3 mem'"
proof -
  have g16: "vector_count \<le> grid_dim vector_count 16 * 16" "n \<le> grid_dim n 16 * 16"
    using v n by (simp_all add: grid_dim_covers)
  have g8: "n \<le> grid_dim n 8 * 8"
    using n by (simp add: grid_dim_covers)
  have "covers_2d vector_count n
          (threads (grid_dim vector_count 16, grid_dim n 16, 1) block_size_2d)"
    unfolding block_size_2d_def using g16 by (rule covers_2d_threads)
  then show "launch (calculate_matrices ext (1, 1, 1) vector_count n vectors output_matrices)
               ws mem
           = launch (calculate_matrix ext vector_count n vectors output_matrices) ws2 mem"
    unfolding calculate_matrices_unit [OF outer] using c2 by (rule calculate_matrix_schedules)
  have "covers_3d n n n (threads (grid_dim n 8, grid_dim n 8, grid_dim n 8) block_size_3d)"
    unfolding block_size_3d_def using g8 g8 g8 by (rule covers_3d_threads)
  then show "launch (product_volume ext (1, 1, 1) n lhs rhs out) ws mem'
           = launch (product ext n lhs rhs out) ws3 mem'"
    unfolding product_volume_unit [OF outer] using c3 by (rule product_schedules)
qed

text \<open>
  C8: the batched routines, invoked with \<open>dimensions = (1, 1, 1)\<close>, produce the output of
  their single-instance counterparts on the same inputs. \<^verbatim>\<open>calculate_matrices\<close> does not:
  it sizes the grid of its nested launch as \<^verbatim>\<open>ceil(float(vector_count) / block_size.x)\<close>,
  and \<open>float(16777217)\<close> is \<open>16777216\<close>. With \<open>16777217\<close> directions, one coefficient and
  a zero-initialized matrix it launches \<open>1048576\<close> blocks of \<open>16\<close> threads and leaves the
  entry of the last direction at \<open>0\<close>; \<^verbatim>\<open>calculate_matrix\<close>, called on the
  \<open>vector_count \<times> coefficient_count\<close> grid that its comment asks for (\<open>1048577\<close> blocks),
  leaves \<open>sqrt (1 / (4 \<pi>))\<close> there.
\<close>

theorem calculate_matrices_misses_last_direction:
  "launch (calculate_matrices reference_externals (1, 1, 1) 16777217 1
             (replicate 16777217 \<lparr>f_x = 0, f_y = 0, f_z = 0\<rparr>) 0)
          (threads (1, 1, 1) (1, 1, 1)) (replicate 16777217 0) ! 16777216 = 0 \<and>
   launch (calculate_matrix reference_externals 16777217 1
             (replicate 16777217 \<lparr>f_x = 0, f_y = 0, f_z = 0\<rparr>) 0)
          (threads (1048577, 1, 1) block_size_2d) (replicate 16777217 0) ! 16777216
     = sqrt (1 / (4 * pi)) \<and>
   launch (calculate_matrices reference_externals (1, 1, 1) 16777217 1
             (replicate 16777217 \<lparr>f_x = 0, f_y = 0, f_z = 0\<rparr>) 0)
          (threads (1, 1, 1) (1, 1, 1)) (replicate 16777217 0)
   \<noteq> launch (calculate_matrix reference_externals 16777217 1
                (replicate 16777217 \<lparr>f_x = 0, f_y = 0, f_z = 0\<rparr>) 0)
             (threads (1048577, 1, 1) block_size_2d) (replicate 16777217 0)"
proof -
  let ?vectors = "replicate 16777217 \<lparr>f_x = 0, f_y = 0, f_z = 0\<rparr>"
  let ?mem = "replicate 16777217 (0::real)"
  let ?inner = "calculate_matrix reference_externals 16777217 1 ?vectors 0"
  have g1: "grid_dim 1 16 = 1"
    by code_simp
  have outer: "distinct (threads (1, 1, 1) (1, 1, 1))" "(0, 0, 0) \<in> set (threads (1, 1, 1) (1, 1, 1))"
    by (simp_all add: distinct_threads set_threads)
  have len: "16777216 < length ?mem" by simp
  have batched: "launch (calculate_matrices reference_externals (1, 1, 1) 16777217 1 ?vectors 0)
                   (threads (1, 1, 1) (1, 1, 1)) ?mem
                 = launch ?inner (threads (1048576, 1, 1) block_size_2d) ?mem"
    unfolding calculate_matrices_unit [OF outer] grid_dim_rounds_down g1 ..
  have miss: "\<forall>w \<in> set (threads (1048576, 1, 1) block_size_2d).
      \<not> (fst w < 16777217 \<and> fst (snd w) < 1 \<and>
         0 + (fst w + 16777217 * fst (snd w)) mod 2 ^ 32 = 16777216)"
    by (auto simp: block_size_2d_def set_threads)
  have lhs: "launch ?inner (threads (1048576, 1, 1) block_size_2d) ?mem ! 16777216 = 0"
    unfolding calculate_matrix_untouched [OF miss distinct_threads len] by simp
  have cov: "covers_2d 16777217 1 (threads (1048577, 1, 1) block_size_2d)"
    unfolding block_size_2d_def by (rule covers_2d_threads) simp_all
  have d: "(16777216::nat) < 16777217" and c: "(0::nat) < 1" by simp_all
  have b: "(16777217::nat) * 1 \<le> 2 ^ 32" by simp
  have len': "16777216 + 16777217 * 0 < length ?mem" by simp
  have "launch ?inner (threads (1048577, 1, 1) block_size_2d) ?mem ! (16777216 + 16777217 * 0)
          = ?mem ! (16777216 + 16777217 * 0)
            + evaluate_index reference_externals 0 (f_y (?vectors ! 16777216))
                (f_z (?vectors ! 16777216))"
    using cov d c b len' by (rule calculate_matrix_launch)
  then have rhs: "launch ?inner (threads (1048577, 1, 1) block_size_2d) ?mem ! 16777216
                    = sqrt (1 / (4 * pi))"
    by (simp add: evaluate_reference_0)
  have "sqrt (1 / (4 * pi)) \<noteq> 0" by simp
  with lhs rhs have ne: "launch ?inner (threads (1048576, 1, 1) block_size_2d) ?mem
      \<noteq> launch ?inner (threads (1048577, 1, 1) block_size_2d) ?mem"
    by metis
  from lhs rhs ne show ?thesis unfolding batched by (intro conjI)
qed
end
